theory Spec2Isabelle
  imports Main "HOL-Library.Word"
begin

unbundle bit_operations_syntax

section \<open>JavaScript values\<close>

text \<open>
  A Node Buffer is a sequence of bytes; a JavaScript string is a sequence of UTF-16 code
  units. String literals of the source are ASCII and are written with \<open>ascii\<close>.
\<close>

type_synonym byte = "8 word"
type_synonym codeunit = "16 word"
type_synonym jsstring = "codeunit list"

definition ascii :: "string \<Rightarrow> jsstring" where
  "ascii s = map of_char s"

definition byte_of :: "char \<Rightarrow> byte" where
  "byte_of c = of_char c"

text \<open>
  The values a decoded property list or a message dictionary can hold. Numbers are the
  integral ones (plist integers); an object is its list of own properties in insertion
  order, with unique keys.
\<close>

datatype jsval =
    JUndefined
  | JNull
  | JBool bool
  | JNum int
  | JStr jsstring
  | JBuf "byte list"
  | JArr "jsval list"
  | JObj "(jsstring \<times> jsval) list"

datatype exn =
    AssertionError
  | TypeError
  | RangeError
  | Failure jsstring
  | ParseError
  | InvalidHex

text \<open>ToBoolean.\<close>

fun truthy :: "jsval \<Rightarrow> bool" where
  "truthy JUndefined = False"
| "truthy JNull = False"
| "truthy (JBool b) = b"
| "truthy (JNum n) = (n \<noteq> 0)"
| "truthy (JStr s) = (s \<noteq> [])"
| "truthy (JBuf _) = True"
| "truthy (JArr _) = True"
| "truthy (JObj _) = True"

text \<open>\<open>a && b\<close> and \<open>!a\<close>.\<close>

definition js_and :: "jsval \<Rightarrow> jsval \<Rightarrow> jsval" where
  "js_and a b = (if truthy a then b else a)"

definition js_not :: "jsval \<Rightarrow> jsval" where
  "js_not a = JBool (\<not> truthy a)"

text \<open>Reading a named property of an object: a missing property reads as \<open>undefined\<close>.\<close>

definition js_prop :: "(jsstring \<times> jsval) list \<Rightarrow> jsstring \<Rightarrow> jsval" where
  "js_prop obj k = (case map_of obj k of None \<Rightarrow> JUndefined | Some v \<Rightarrow> v)"

definition has_field :: "(jsstring \<times> jsval) list \<Rightarrow> jsstring \<Rightarrow> bool" where
  "has_field obj k = (map_of obj k \<noteq> None)"

section \<open>MobileDevice.isDataReceivingCompleted\<close>

text \<open>
  \<^verbatim>\<open>return reply.Status && reply.Complete && !reply.PercentComplete;\<close>
\<close>

definition isDataReceivingCompleted :: "(jsstring \<times> jsval) list \<Rightarrow> jsval" where
  "isDataReceivingCompleted reply =
     js_and (js_and (js_prop reply (ascii ''Status'')) (js_prop reply (ascii ''Complete'')))
            (js_not (js_prop reply (ascii ''PercentComplete'')))"

text \<open>
  The completion policy in the specification's words: a "Status" field is present,
  the "Complete" field equals true, and no "PercentComplete" field is present.
\<close>

definition isComplete_spec :: "(jsstring \<times> jsval) list \<Rightarrow> bool" where
  "isComplete_spec reply =
     (has_field reply (ascii ''Status'') \<and> js_prop reply (ascii ''Complete'') = JBool True
      \<and> \<not> has_field reply (ascii ''PercentComplete''))"

section \<open>Text rendering used by the debug protocol\<close>

text \<open>\<open>Number.prototype.toString(16)\<close> and the \<open>%d\<close> of \<open>util.format\<close>, on naturals.\<close>

definition hexdigit :: "nat \<Rightarrow> codeunit" where
  "hexdigit d = ascii ''0123456789abcdef'' ! d"

function toString16 :: "nat \<Rightarrow> jsstring" where
  "toString16 n = (if n < 16 then [hexdigit n] else toString16 (n div 16) @ [hexdigit (n mod 16)])"
  by pat_completeness auto
termination
  by (relation "measure id") auto

function toString10 :: "nat \<Rightarrow> jsstring" where
  "toString10 n = (if n < 10 then [hexdigit n] else toString10 (n div 10) @ [hexdigit (n mod 10)])"
  by pat_completeness auto
termination
  by (relation "measure id") auto

text \<open>\<open>buffer.toString("hex")\<close>: two lowercase digits per byte.\<close>

definition toString_hex :: "byte list \<Rightarrow> jsstring" where
  "toString_hex bs = concat (map (\<lambda>b. [hexdigit (unat b div 16), hexdigit (unat b mod 16)]) bs)"

text \<open>\<open>Array.prototype.join\<close> on strings.\<close>

fun join :: "jsstring \<Rightarrow> jsstring list \<Rightarrow> jsstring" where
  "join sep [] = []"
| "join sep [x] = x"
| "join sep (x # y # ys) = x @ sep @ join sep (y # ys)"

text \<open>
  Modelled from the spec: \<open>new Buffer(arg)\<close> is Node's UTF-8 encoder, which is not part of
  the repository; the specification calls its result the argument's bytes. A surrogate
  pair is one four-byte sequence, a lone surrogate is encoded as U+FFFD.
\<close>

definition utf8_of_codepoint :: "nat \<Rightarrow> byte list" where
  "utf8_of_codepoint cp =
     (if cp < 0x80 then [of_nat cp]
      else if cp < 0x800 then [of_nat (0xC0 + cp div 0x40), of_nat (0x80 + cp mod 0x40)]
      else if cp < 0x10000 then
        [of_nat (0xE0 + cp div 0x1000), of_nat (0x80 + (cp div 0x40) mod 0x40),
         of_nat (0x80 + cp mod 0x40)]
      else
        [of_nat (0xF0 + cp div 0x40000), of_nat (0x80 + (cp div 0x1000) mod 0x40),
         of_nat (0x80 + (cp div 0x40) mod 0x40), of_nat (0x80 + cp mod 0x40)])"

definition is_high_surrogate :: "codeunit \<Rightarrow> bool" where
  "is_high_surrogate c = (0xD800 \<le> unat c \<and> unat c \<le> 0xDBFF)"

definition is_low_surrogate :: "codeunit \<Rightarrow> bool" where
  "is_low_surrogate c = (0xDC00 \<le> unat c \<and> unat c \<le> 0xDFFF)"

fun utf8_encode :: "jsstring \<Rightarrow> byte list" where
  "utf8_encode [] = []"
| "utf8_encode [c] =
     (if is_high_surrogate c \<or> is_low_surrogate c then [0xEF, 0xBF, 0xBD]
      else utf8_of_codepoint (unat c))"
| "utf8_encode (c # d # rest) =
     (if is_high_surrogate c \<and> is_low_surrogate d then
        utf8_of_codepoint (0x10000 + (unat c - 0xD800) * 0x400 + (unat d - 0xDC00))
        @ utf8_encode rest
      else if is_high_surrogate c \<or> is_low_surrogate c then
        [0xEF, 0xBF, 0xBD] @ utf8_encode (d # rest)
      else utf8_of_codepoint (unat c) @ utf8_encode (d # rest))"

section \<open>getCharacterCodePoint and GDBServer.send\<close>

text \<open>
  \<^verbatim>\<open>assert.equal(ch.length, 1); let code = ch.charCodeAt(0);
  assert.ok(!(0xD800 <= code && code <= 0xffff)); return code;\<close>
\<close>

definition getCharacterCodePoint :: "jsstring \<Rightarrow> exn + nat" where
  "getCharacterCodePoint ch =
     (if length ch \<noteq> 1 then Inl AssertionError
      else let code = unat (ch ! 0) in
        if 0xD800 \<le> code \<and> code \<le> 0xffff then Inl AssertionError else Inr code)"

text \<open>The summing loop of \<open>send\<close>: \<open>packet[i]\<close> is the one-unit string at index \<open>i\<close>.\<close>

fun sum_loop :: "jsstring \<Rightarrow> nat \<Rightarrow> exn + nat" where
  "sum_loop [] acc = Inr acc"
| "sum_loop (c # cs) acc =
     (case getCharacterCodePoint [c] of
        Inl e \<Rightarrow> Inl e
      | Inr code \<Rightarrow> sum_loop cs (acc + code))"

text \<open>
  \<^verbatim>\<open>sum = sum & 255; let data = util.format("$%s#%s", packet, sum.toString(16));\<close>
  \<open>send_data\<close> is the string handed to \<open>socket.write\<close>.
\<close>

definition send_data :: "jsstring \<Rightarrow> exn + jsstring" where
  "send_data packet =
     (case sum_loop packet 0 of
        Inl e \<Rightarrow> Inl e
      | Inr acc \<Rightarrow> Inr (ascii ''$'' @ packet @ ascii ''#'' @ toString16 (acc AND 255)))"

text \<open>What a run of the server does to its surroundings, in order.\<close>

datatype effect =
    SocketWrite jsstring
  | PipeStandardOutputAdapter
  | PipeSignalWatcher

definition socket_write :: "jsstring \<Rightarrow> effect list \<Rightarrow> exn + effect list" where
  "socket_write d es = Inr (es @ [SocketWrite d])"

definition send :: "jsstring \<Rightarrow> effect list \<Rightarrow> exn + effect list" where
  "send packet es =
     (case send_data packet of Inl e \<Rightarrow> Inl e | Inr d \<Rightarrow> socket_write d es)"

definition pipe_to :: "effect \<Rightarrow> effect list \<Rightarrow> exn + effect list" where
  "pipe_to p es = Inr (es @ [p])"

text \<open>Statements in sequence: the first exception ends the run.\<close>

fun in_sequence :: "('s \<Rightarrow> exn + 's) list \<Rightarrow> 's \<Rightarrow> exn + 's" where
  "in_sequence [] s = Inr s"
| "in_sequence (f # fs) s = (case f s of Inl e \<Rightarrow> Inl e | Inr s' \<Rightarrow> in_sequence fs s')"

section \<open>GDBServer.run\<close>

record gdb_host =
  isWindows :: bool
  justlaunch :: bool

text \<open>
  \<^verbatim>\<open>_.map(argv, (arg, index) => util.format("%d,%d,%s", arg.length * 2, index,
      new Buffer(arg).toString("hex"))).join(",")\<close>
\<close>

definition encodedArguments :: "jsstring list \<Rightarrow> jsstring" where
  "encodedArguments argv =
     join (ascii '','')
       (map (\<lambda>(index, arg).
               toString10 (length arg * 2) @ ascii '','' @ toString10 index @ ascii '',''
               @ toString_hex (utf8_encode arg))
            (enumerate 0 argv))"

definition run :: "gdb_host \<Rightarrow> jsstring list \<Rightarrow> effect list \<Rightarrow> exn + effect list" where
  "run host argv =
     in_sequence
       ([send (ascii ''QStartNoAckMode''),
         socket_write (ascii ''+''),
         send (ascii ''QEnvironmentHexEncoded:''),
         send (ascii ''QSetDisableASLR:1''),
         send (ascii ''A'' @ encodedArguments argv),
         send (ascii ''qLaunchSuccess'')]
        @ (if isWindows host then [send (ascii ''vCont;c'')]
           else if \<not> justlaunch host then
             [pipe_to PipeStandardOutputAdapter, pipe_to PipeSignalWatcher,
              send (ascii ''vCont;c'')]
           else [send (ascii ''D'')]))"

text \<open>The socket writes among the effects.\<close>

fun writes :: "effect list \<Rightarrow> jsstring list" where
  "writes [] = []"
| "writes (SocketWrite d # es) = d # writes es"
| "writes (_ # es) = writes es"

section \<open>GDBSignalWatcher._write\<close>

datatype write_outcome = ProcessExit int | Callback "exn option"

text \<open>
  With \<open>cp\<close> for \<open>getCharacterCodePoint\<close>, which on the one-character ASCII literals of
  the source returns the character's code and never throws:
  \<^verbatim>\<open>for (let i = 0; i < packet.length - 2; i++) {
    if (packet[i] === cp("$") && (packet[i + 1] === cp("T") || packet[i + 1] === cp("S"))) {
      // SIGKILL
      if (packet[i + 2] === cp("9")) { process.exit(1); } } }
  callback(null);\<close>
\<close>

function watch_loop :: "byte list \<Rightarrow> nat \<Rightarrow> write_outcome" where
  "watch_loop packet i =
     (if int i < int (length packet) - 2 then
        (if packet ! i = byte_of CHR ''$''
            \<and> (packet ! (i + 1) = byte_of CHR ''T'' \<or> packet ! (i + 1) = byte_of CHR ''S'')
         then (if packet ! (i + 2) = byte_of CHR ''9'' then ProcessExit 1
               else watch_loop packet (i + 1))
         else watch_loop packet (i + 1))
      else Callback None)"
  by pat_completeness auto
termination
  by (relation "measure (\<lambda>(packet, i). length packet - i)") auto

declare watch_loop.simps [simp del]

definition GDBSignalWatcher_write :: "byte list \<Rightarrow> write_outcome" where
  "GDBSignalWatcher_write packet = watch_loop packet 0"

text \<open>The bytes of an ASCII text, as they arrive in a chunk.\<close>

definition bytes :: "string \<Rightarrow> byte list" where
  "bytes s = map byte_of s"

section \<open>GDBStandardOutputAdapter._transform\<close>

text \<open>\<open>packet[i]\<close> on a Buffer: \<open>undefined\<close> (here \<open>None\<close>) at and beyond its length.\<close>

definition js_index :: "byte list \<Rightarrow> nat \<Rightarrow> byte option" where
  "js_index packet i = (if i < length packet then Some (packet ! i) else None)"

text \<open>
  \<^verbatim>\<open>while (packet[i] !== getCharacterCodePoint("#")) { i++; }\<close>
  The loop has no bound on \<open>i\<close>: past the end every read is \<open>undefined\<close>, which differs
  from the code of \<open>#\<close>, so the loop may run forever. Not returning is the value \<open>None\<close>.
\<close>

partial_function (option) while_not_hash :: "byte list \<Rightarrow> nat \<Rightarrow> nat option" where
  "while_not_hash packet i =
     (if js_index packet i \<noteq> Some (byte_of CHR ''#'') then while_not_hash packet (i + 1)
      else Some i)"

declare while_not_hash.simps [code]

text \<open>\<open>packet.toString("ascii", start, end)\<close>: the high bit of every byte is dropped.\<close>

definition toString_ascii :: "byte list \<Rightarrow> nat \<Rightarrow> nat \<Rightarrow> jsstring" where
  "toString_ascii packet start fin =
     map (\<lambda>b. ucast (b AND 0x7F)) (take (fin - start) (drop start packet))"

text \<open>
  The \<open>for\<close> loop of \<open>_transform\<close>, with \<open>cp\<close> for \<open>getCharacterCodePoint\<close>:
  \<^verbatim>\<open>for (let i = 0; i < packet.length; i++) {
    if (packet[i] === cp("$")) {
      let start = ++i;
      while (packet[i] !== cp("#")) { i++; }
      let end = i;
      i++; i++;                                  // Skip checksum
      if (!(packet[start] === cp("O") && packet[start + 1] !== cp("K"))) { continue; }
      start++;
      let hexString = packet.toString("ascii", start, end);
      let hex = new Buffer(hexString, "hex");
      result += this.utf8StringDecoder.write(hex); } }
  done(null, result)\<close>
  In the model \<open>i\<close> is the index of the \<open>$\<close>, so \<open>start\<close> is \<open>i + 1\<close>, \<open>end\<close> is \<open>fin\<close>,
  and the next turn of the loop starts at \<open>fin + 3\<close>. Node's
  \<open>new Buffer(hexString, "hex")\<close> and the \<open>write\<close> of its \<open>StringDecoder\<close> are
  parameters: \<open>hexdec\<close> may throw, which the \<open>catch\<close> hands to \<open>done\<close>; \<open>decwrite\<close>
  takes the decoder's state and returns the text with the new state. The outcome is what
  \<open>done\<close> is called with, and the decoder's state after the call.
\<close>

partial_function (option) transform_loop ::
  "(jsstring \<Rightarrow> exn + byte list) \<Rightarrow> ('d \<Rightarrow> byte list \<Rightarrow> jsstring \<times> 'd) \<Rightarrow> byte list \<Rightarrow> nat
   \<Rightarrow> jsstring \<Rightarrow> 'd \<Rightarrow> ((exn + jsstring) \<times> 'd) option" where
  "transform_loop hexdec decwrite packet i result dec =
     (if i < length packet then
        (if js_index packet i = Some (byte_of CHR ''$'') then
           (case while_not_hash packet (i + 1) of
              None \<Rightarrow> None
            | Some fin \<Rightarrow>
                (if \<not> (js_index packet (i + 1) = Some (byte_of CHR ''O'')
                        \<and> js_index packet (i + 2) \<noteq> Some (byte_of CHR ''K''))
                 then transform_loop hexdec decwrite packet (fin + 3) result dec
                 else
                   (case hexdec (toString_ascii packet (i + 2) fin) of
                      Inl e \<Rightarrow> Some (Inl e, dec)
                    | Inr hex \<Rightarrow>
                        transform_loop hexdec decwrite packet (fin + 3)
                          (result @ fst (decwrite dec hex)) (snd (decwrite dec hex)))))
         else transform_loop hexdec decwrite packet (i + 1) result dec)
      else Some (Inr result, dec))"

declare transform_loop.simps [code]

definition GDBStandardOutputAdapter_transform ::
  "(jsstring \<Rightarrow> exn + byte list) \<Rightarrow> ('d \<Rightarrow> byte list \<Rightarrow> jsstring \<times> 'd) \<Rightarrow> byte list \<Rightarrow> 'd
   \<Rightarrow> ((exn + jsstring) \<times> 'd) option" where
  "GDBStandardOutputAdapter_transform hexdec decwrite packet dec =
     transform_loop hexdec decwrite packet 0 [] dec"

text \<open>
  Modelled from the spec: \<open>new Buffer(hexString, "hex")\<close> belongs to Node, not to the
  repository; the specification has the payload "hex-decoded pairwise". A string of odd
  length or with a character that is no hexadecimal digit is rejected.
\<close>

definition hexval :: "codeunit \<Rightarrow> nat option" where
  "hexval c =
     (let n = unat c in
      if 48 \<le> n \<and> n \<le> 57 then Some (n - 48)
      else if 97 \<le> n \<and> n \<le> 102 then Some (n - 87)
      else if 65 \<le> n \<and> n \<le> 70 then Some (n - 55)
      else None)"

fun Buffer_from_hex :: "jsstring \<Rightarrow> exn + byte list" where
  "Buffer_from_hex [] = Inr []"
| "Buffer_from_hex [c] = Inl InvalidHex"
| "Buffer_from_hex (c # d # rest) =
     (case (hexval c, hexval d) of
        (Some a, Some b) \<Rightarrow>
          (case Buffer_from_hex rest of
             Inl e \<Rightarrow> Inl e
           | Inr bs \<Rightarrow> Inr (of_nat (16 * a + b) # bs))
      | _ \<Rightarrow> Inl InvalidHex)"

text \<open>
  Modelled from the spec: Node's \<open>StringDecoder("utf8")\<close> is not part of the repository;
  the specification asks for "a UTF-8 decoder that retains partial multi-byte state across
  packet boundaries". The state is the incomplete sequence seen so far; a byte that
  cannot start or continue a sequence decodes to U+FFFD.
\<close>

definition utf8_need :: "byte \<Rightarrow> nat" where
  "utf8_need b =
     (let n = unat b in
      if 0xC2 \<le> n \<and> n \<le> 0xDF then 1
      else if 0xE0 \<le> n \<and> n \<le> 0xEF then 2
      else if 0xF0 \<le> n \<and> n \<le> 0xF4 then 3
      else 0)"

definition is_continuation :: "byte \<Rightarrow> bool" where
  "is_continuation b = (0x80 \<le> unat b \<and> unat b \<le> 0xBF)"

definition utf8_codepoint :: "byte \<Rightarrow> byte list \<Rightarrow> nat" where
  "utf8_codepoint b cs =
     foldl (\<lambda>acc c. acc * 0x40 + unat c mod 0x40)
       (unat b mod (if length cs = 1 then 0x20 else if length cs = 2 then 0x10 else 0x08)) cs"

definition utf16_units :: "nat \<Rightarrow> jsstring" where
  "utf16_units cp =
     (if cp < 0x10000 then [of_nat cp]
      else [of_nat (0xD800 + (cp - 0x10000) div 0x400), of_nat (0xDC00 + (cp - 0x10000) mod 0x400)])"

function utf8_decode :: "byte list \<Rightarrow> jsstring \<times> byte list" where
  "utf8_decode [] = ([], [])"
| "utf8_decode (b # bs) =
     (if unat b < 0x80 then (ucast b # fst (utf8_decode bs), snd (utf8_decode bs))
      else if utf8_need b = 0 then (0xFFFD # fst (utf8_decode bs), snd (utf8_decode bs))
      else if length bs < utf8_need b \<and> list_all is_continuation bs then ([], b # bs)
      else if list_all is_continuation (take (utf8_need b) bs) then
        (utf16_units (utf8_codepoint b (take (utf8_need b) bs))
           @ fst (utf8_decode (drop (utf8_need b) bs)),
         snd (utf8_decode (drop (utf8_need b) bs)))
      else (0xFFFD # fst (utf8_decode bs), snd (utf8_decode bs)))"
  by pat_completeness auto
termination
  by (relation "measure length") auto

definition StringDecoder_write :: "byte list \<Rightarrow> byte list \<Rightarrow> jsstring \<times> byte list" where
  "StringDecoder_write pending bs = utf8_decode (pending @ bs)"

section \<open>Buffers, length prefixes and library functions\<close>

text \<open>
  \<open>buffer.slice(start, end)\<close>: a negative index counts from the end, both indices are
  clamped to the buffer, and an end before the start gives the empty buffer.
\<close>

definition clamp_index :: "int \<Rightarrow> int \<Rightarrow> nat" where
  "clamp_index n i = (if i < 0 then nat (max 0 (n + i)) else nat (min i n))"

definition js_slice :: "byte list \<Rightarrow> int \<Rightarrow> int \<Rightarrow> byte list" where
  "js_slice b start fin =
     (let s = clamp_index (int (length b)) start; e = clamp_index (int (length b)) fin
      in take (e - s) (drop s b))"

definition js_slice_from :: "byte list \<Rightarrow> int \<Rightarrow> byte list" where
  "js_slice_from b start = js_slice b start (int (length b))"

text \<open>\<open>bufferpack.pack(">i", [n])\<close>: four bytes, big-endian, two's complement.\<close>

definition pack_i32be :: "int \<Rightarrow> byte list" where
  "pack_i32be n =
     (let u = n mod 2 ^ 32
      in [of_int (u div 2 ^ 24), of_int (u div 2 ^ 16 mod 256), of_int (u div 2 ^ 8 mod 256),
          of_int (u mod 256)])"

text \<open>
  \<open>buffer.readInt32BE(0)\<close> and \<open>bufferpack.unpack(">i", data)[0]\<close> on the first four
  bytes; the caller checks that they exist.
\<close>

definition readInt32BE :: "byte list \<Rightarrow> int" where
  "readInt32BE b =
     (let u = ((uint (b ! 0) * 256 + uint (b ! 1)) * 256 + uint (b ! 2)) * 256 + uint (b ! 3)
      in if u < 2 ^ 31 then u else u - 2 ^ 32)"

text \<open>
  The functions of Node and of the npm packages that the sockets call, which are not part
  of the repository: \<open>bplistParser.parseBuffer\<close>, \<open>plist.parse\<close>, \<open>buffer.toString()\<close>,
  the conversion of a value to a string (\<open>util.format("%s", v)\<close>, \<open>"" + v\<close>), and
  \<open>buffer.toString("base64")\<close>. The parsers may throw.
\<close>

record libraries =
  parseBuffer :: "byte list \<Rightarrow> exn + jsval"
  plist_parse :: "jsstring \<Rightarrow> exn + jsval"
  buffer_toString :: "byte list \<Rightarrow> jsstring"
  to_string :: "jsval \<Rightarrow> jsstring"
  toString_base64 :: "byte list \<Rightarrow> jsstring"

definition kCFPropertyListXMLFormat_v1_0 :: int where
  "kCFPropertyListXMLFormat_v1_0 = 100"

definition kCFPropertyListBinaryFormat_v1_0 :: int where
  "kCFPropertyListBinaryFormat_v1_0 = 200"

text \<open>
  \<open>v[0]\<close>, \<open>v.Status\<close> and \<open>v.PercentComplete\<close> on any value: reading a property of
  \<open>undefined\<close> or \<open>null\<close> throws a TypeError; index 0 of an array, a string or a buffer
  is its first element; anything else the value does not own reads as \<open>undefined\<close>.
\<close>

fun js_member :: "jsval \<Rightarrow> jsstring \<Rightarrow> exn + jsval" where
  "js_member JUndefined k = Inl TypeError"
| "js_member JNull k = Inl TypeError"
| "js_member (JObj kvs) k = Inr (js_prop kvs k)"
| "js_member (JArr xs) k =
     Inr (if k = ascii ''0'' then (case xs of [] \<Rightarrow> JUndefined | x # _ \<Rightarrow> x) else JUndefined)"
| "js_member (JStr s) k =
     Inr (if k = ascii ''0'' then (case s of [] \<Rightarrow> JUndefined | c # _ \<Rightarrow> JStr [c])
          else JUndefined)"
| "js_member (JBuf b) k =
     Inr (if k = ascii ''0'' then (case b of [] \<Rightarrow> JUndefined | x # _ \<Rightarrow> JNum (uint x))
          else JUndefined)"
| "js_member (JBool _) k = Inr JUndefined"
| "js_member (JNum _) k = Inr JUndefined"

text \<open>\<open>typeof v === "object"\<close>.\<close>

fun typeof_object :: "jsval \<Rightarrow> bool" where
  "typeof_object JNull = True"
| "typeof_object (JObj _) = True"
| "typeof_object (JArr _) = True"
| "typeof_object (JBuf _) = True"
| "typeof_object _ = False"

section \<open>PosixSocket.receiveMessage\<close>

datatype ReadState = Length | Plist

text \<open>What the socket hands to its logger.\<close>

datatype log_entry =
    Trace jsstring
  | TraceValue jsval
  | TraceException jsstring exn
  | Out jsstring

text \<open>
  The socket's fields, the log, and the future that \<open>receiveMessage\<close> returns as its
  \<open>result\<close>
  (\<open>None\<close> while unresolved; the data handler only ever resolves it with a value).
\<close>

record posix_socket =
  buffer :: "byte list"
  state :: ReadState
  length_field :: int
  format :: int
  log :: "log_entry list"
  future :: "jsval option"

definition new_PosixSocket :: "int \<Rightarrow> posix_socket" where
  "new_PosixSocket fmt =
     \<lparr>buffer = [], state = Length, length_field = 4, format = fmt, log = [], future = None\<rparr>"

definition logger :: "log_entry \<Rightarrow> posix_socket \<Rightarrow> posix_socket" where
  "logger entry s = s\<lparr>log := log s @ [entry]\<rparr>"

text \<open>
  The body of the innermost \<open>try\<close>, run on a parsed message; an exception leaves what was
  logged and resolved before it in place.
  \<^verbatim>\<open>if (message && typeof (message) === "object" && message[0]) {
    message = message[0];
    let output = "";
    if (message.Status) { output += util.format("Status: %s", message.Status); }
    if (message.PercentComplete) { output += util.format(" PercentComplete: %s", ...); }
    this.$logger.out(output);
    if (message.Status && message.Status === "Complete") {
      if (!result.isResolved()) { result.return(message); } }
    let status = message[0].Status;
    let percentComplete = message[0].PercentComplete;
    this.$logger.trace("Status: " + status + " PercentComplete: " + percentComplete); }\<close>
\<close>

definition retrieve_state :: "libraries \<Rightarrow> jsval \<Rightarrow> posix_socket \<Rightarrow> posix_socket \<times> exn option" where
  "retrieve_state L message s =
     (if \<not> (truthy message \<and> typeof_object message) then (s, None)
      else case js_member message (ascii ''0'') of
        Inl e \<Rightarrow> (s, Some e)
      | Inr m \<Rightarrow>
          if \<not> truthy m then (s, None)
          else (case (js_member m (ascii ''Status''), js_member m (ascii ''PercentComplete'')) of
            (Inr status, Inr percent) \<Rightarrow>
              (let output =
                     (if truthy status then ascii ''Status: '' @ to_string L status else [])
                     @ (if truthy percent then ascii '' PercentComplete: '' @ to_string L percent
                        else []);
                   s1 = logger (Out output) s;
                   s2 = (if truthy status \<and> status = JStr (ascii ''Complete'')
                         then (if future s1 = None then s1\<lparr>future := Some m\<rparr> else s1)
                         else s1)
               in (case js_member m (ascii ''0'') of
                     Inl e \<Rightarrow> (s2, Some e)
                   | Inr m0 \<Rightarrow>
                       (case (js_member m0 (ascii ''Status''),
                              js_member m0 (ascii ''PercentComplete'')) of
                          (Inr status0, Inr percent0) \<Rightarrow>
                            (logger (Trace (ascii ''Status: '' @ to_string L status0
                                            @ ascii '' PercentComplete: '' @ to_string L percent0))
                               s2, None)
                        | (Inl e, _) \<Rightarrow> (s2, Some e)
                        | (_, Inl e) \<Rightarrow> (s2, Some e))))
          | (Inl e, _) \<Rightarrow> (s, Some e)
          | (_, Inl e) \<Rightarrow> (s, Some e)))"

text \<open>
  \<open>case ReadState.Length\<close>: read the length, drop its four bytes, expect the payload.
\<close>

definition length_case :: "posix_socket \<Rightarrow> posix_socket" where
  "length_case s =
     s\<lparr>length_field := readInt32BE (buffer s), buffer := js_slice_from (buffer s) 4,
       state := Plist\<rparr>"

text \<open>
  \<open>case ReadState.Plist\<close>: slice the payload, parse it and report it under the two inner
  \<open>try\<close> blocks, then drop the payload and expect a length again, whatever the parse did.
\<close>

definition plist_case :: "libraries \<Rightarrow> posix_socket \<Rightarrow> posix_socket" where
  "plist_case L s =
     (let plistBuffer = js_slice (buffer s) 0 (length_field s);
          s1 = (case parseBuffer L plistBuffer of
                  Inl e \<Rightarrow> logger (TraceException (ascii ''Failed to parse bplist: '') e) s
                | Inr message \<Rightarrow>
                    (let s0 = logger (TraceValue message)
                                (logger (Trace (ascii ''MESSAGE RECEIVING'')) s)
                     in case retrieve_state L message s0 of
                          (s', None) \<Rightarrow> s'
                        | (s', Some e) \<Rightarrow>
                            logger (TraceException (ascii ''Failed to retreive state: '') e) s'))
      in s1\<lparr>buffer := js_slice_from (buffer s1) (length_field s1), state := Length,
            length_field := 4\<rparr>)"

text \<open>
  One turn of \<open>while (this.buffer.length >= this.length)\<close>: \<open>None\<close> when the condition
  fails; \<open>Inl\<close> when \<open>readInt32BE\<close> throws on a buffer shorter than four bytes, which the
  outer \<open>catch\<close> logs.
\<close>

definition while_step :: "libraries \<Rightarrow> posix_socket \<Rightarrow> (exn + posix_socket) option" where
  "while_step L s =
     (if int (length (buffer s)) \<ge> length_field s then
        (case state s of
           Length \<Rightarrow> if length (buffer s) < 4 then Some (Inl RangeError)
                     else Some (Inr (length_case s))
         | Plist \<Rightarrow> Some (Inr (plist_case L s)))
      else None)"

function while_loop :: "libraries \<Rightarrow> posix_socket \<Rightarrow> posix_socket" where
  "while_loop L s =
     (case while_step L s of
        None \<Rightarrow> s
      | Some (Inl e) \<Rightarrow> logger (TraceException (ascii ''Exception thrown: '') e) s
      | Some (Inr s') \<Rightarrow> while_loop L s')"
  by pat_completeness auto
termination
proof (relation "measure (\<lambda>(L, s). 2 * length (buffer s) + (if state s = Plist then 1 else 0))",
    goal_cases)
  case 1
  show ?case by simp
next
  case (2 L s r s')
  then have turn: "while_step L s = Some (Inr s')" by simp
  have kept: "buffer (fst (retrieve_state L m t)) = buffer t
              \<and> length_field (fst (retrieve_state L m t)) = length_field t" for m t
    by (auto simp: retrieve_state_def logger_def Let_def split: sum.splits)
  have shorter: "length (js_slice_from b k) \<le> length b" for b k
    by (simp add: js_slice_from_def js_slice_def Let_def)
  have "2 * length (buffer s') + (if state s' = Plist then 1 else 0)
        < 2 * length (buffer s) + (if state s = Plist then 1 else 0)"
  proof (cases "state s")
    case Length
    with turn have "s' = length_case s" and "4 \<le> length (buffer s)"
      by (auto simp: while_step_def split: if_splits)
    with Length show ?thesis
      by (simp add: length_case_def js_slice_from_def js_slice_def clamp_index_def)
  next
    case Plist
    with turn have s': "s' = plist_case L s"
      by (auto simp: while_step_def split: if_splits)
    have "buffer s' = js_slice_from (buffer s) (length_field s) \<and> state s' = Length"
    proof (cases "parseBuffer L (js_slice (buffer s) 0 (length_field s))")
      case (Inl e)
      then show ?thesis
        by (simp add: s' plist_case_def Let_def logger_def)
    next
      case (Inr message)
      let ?t = "logger (TraceValue message) (logger (Trace (ascii ''MESSAGE RECEIVING'')) s)"
      obtain t' r' where rs: "retrieve_state L message ?t = (t', r')"
        by (cases "retrieve_state L message ?t")
      with kept [of message ?t]
      have "buffer t' = buffer s \<and> length_field t' = length_field s"
        by (simp add: logger_def)
      then show ?thesis
        using Inr rs by (cases r') (simp_all add: s' plist_case_def Let_def logger_def)
    qed
    with shorter [of "buffer s" "length_field s"] Plist show ?thesis by simp
  qed
  then show ?case by simp
qed

declare while_loop.simps [simp del]

text \<open>
  The handler of the socket's \<open>data\<close> event: append the chunk; in binary format run the
  loop; in XML format parse the whole buffer, with a failed parse giving \<open>{}\<close>, and
  resolve the future with it unless it is resolved already.
\<close>

definition on_data :: "libraries \<Rightarrow> byte list \<Rightarrow> posix_socket \<Rightarrow> posix_socket" where
  "on_data L data s =
     (let s1 = s\<lparr>buffer := buffer s @ data\<rparr> in
      if format s1 = kCFPropertyListBinaryFormat_v1_0 then while_loop L s1
      else if format s1 = kCFPropertyListXMLFormat_v1_0 then
        (let parsedData = (case plist_parse L (buffer_toString L (buffer s1)) of
                             Inl e \<Rightarrow> JObj []
                           | Inr v \<Rightarrow> v)
         in if future s1 = None then s1\<lparr>future := Some parsedData\<rparr> else s1)
      else s1)"

text \<open>The chunks of a stream, one \<open>data\<close> event each.\<close>

definition receive_chunks :: "libraries \<Rightarrow> byte list list \<Rightarrow> posix_socket \<Rightarrow> posix_socket" where
  "receive_chunks L chunks s = foldl (\<lambda>s' data. on_data L data s') s chunks"

text \<open>
  \<open>PosixSocket.sendMessage\<close> writes the four-byte length of the encoded message and then
  the message: one frame.
\<close>

definition frame :: "byte list \<Rightarrow> byte list" where
  "frame payload = pack_i32be (int (length payload)) @ payload"

text \<open>
  The outcome of decoding each frame, in the order of the log: the value handed to
  \<open>trace(message)\<close>, or the exception of the parser.
\<close>

fun parsed :: "log_entry list \<Rightarrow> (exn + jsval) list" where
  "parsed [] = []"
| "parsed (TraceValue m # es) = Inr m # parsed es"
| "parsed (TraceException t e # es) =
     (if t = ascii ''Failed to parse bplist: '' then Inl e # parsed es else parsed es)"
| "parsed (_ # es) = parsed es"

text \<open>
  The line that the handler prints for a decoded dictionary: its Status and its
  PercentComplete, each only when truthy.
  \<^verbatim>\<open>if (message.Status) { output += util.format("Status: %s", message.Status); }
  if (message.PercentComplete) {
    output += util.format(" PercentComplete: %s", message.PercentComplete); }\<close>
\<close>

definition progress_line :: "libraries \<Rightarrow> (jsstring \<times> jsval) list \<Rightarrow> jsstring" where
  "progress_line L d =
     (if truthy (js_prop d (ascii ''Status''))
      then ascii ''Status: '' @ to_string L (js_prop d (ascii ''Status'')) else [])
     @ (if truthy (js_prop d (ascii ''PercentComplete''))
        then ascii '' PercentComplete: '' @ to_string L (js_prop d (ascii ''PercentComplete''))
        else [])"

text \<open>
  What one message reaches the logger as, when the frame decodes to the array \<open>[d]\<close> of a
  dictionary \<open>d\<close>: the announcement, the decoded message, the progress line, and the
  exception of \<open>message[0].Status\<close> (a dictionary has no element 0).
\<close>

definition message_log :: "libraries \<Rightarrow> (jsstring \<times> jsval) list \<Rightarrow> log_entry list" where
  "message_log L d =
     [Trace (ascii ''MESSAGE RECEIVING''), TraceValue (JArr [JObj d]), Out (progress_line L d),
      TraceException (ascii ''Failed to retreive state: '') TypeError]"

text \<open>
  The message that reaches the caller of \<open>receiveMessage\<close>: the first dictionary whose
  Status is \<open>"Complete"\<close>.
\<close>

fun first_complete :: "(jsstring \<times> jsval) list list \<Rightarrow> jsval option" where
  "first_complete [] = None"
| "first_complete (d # ds) =
     (if js_prop d (ascii ''Status'') = JStr (ascii ''Complete'') then Some (JObj d)
      else first_complete ds)"

section \<open>WinSocket: read, receiveMessageCore, receiveMessage\<close>

text \<open>
  The peer's side of the socket: the data still to arrive, in the pieces in which the
  network delivers it. \<open>recv\<close> with room for \<open>n\<close> bytes returns at most the rest of the
  first piece; an empty piece, or the end of the list, is a read of zero bytes (the peer
  has closed); \<open>Fault c\<close> makes \<open>recv\<close> return the code \<open>c\<close>.
\<close>

datatype arrival = Arrive "byte list" | Fault int

definition recv :: "nat \<Rightarrow> arrival list \<Rightarrow> int \<times> byte list \<times> arrival list" where
  "recv n net =
     (case net of
        [] \<Rightarrow> (0, [], [])
      | Fault c # rest \<Rightarrow> (c, [], rest)
      | Arrive bs # rest \<Rightarrow>
          (int (length (take n bs)), take n bs,
           if drop n bs = [] then rest else Arrive (drop n bs) # rest))"

text \<open>
  \<^verbatim>\<open>let data = new Buffer(bytes);
  result = this.winSocketLibrary.recv(this.service, data, bytes, 0);
  if (result < 0) { this.$errors.fail("Error receiving data: %s", result); }
  else if (result === 0) { return null; }
  return data;\<close>
  The buffer returned has the size asked for, whatever \<open>recv\<close> filled in: beyond the bytes
  received it holds what the fresh allocation held, \<open>fresh i\<close> at index \<open>i\<close>.
\<close>

definition read :: "(nat \<Rightarrow> byte) \<Rightarrow> nat \<Rightarrow> arrival list \<Rightarrow> (exn + byte list option) \<times> arrival list" where
  "read fresh n net =
     (case recv n net of
        (count, got, net') \<Rightarrow>
          if count < 0 then (Inl (Failure (ascii ''Error receiving data: %s'')), net')
          else if count = 0 then (Inr None, net')
          else (Inr (Some (got @ map fresh [length got ..< n])), net'))"

text \<open>
  \<^verbatim>\<open>while (left > 0) {
    let r = this.read(left);
    if (r === null) { this.$errors.fail("Unable to read reply"); }
    reply += r;
    left -= r.length; }\<close>
\<close>

function read_loop ::
  "libraries \<Rightarrow> (nat \<Rightarrow> byte) \<Rightarrow> int \<Rightarrow> jsstring \<Rightarrow> arrival list \<Rightarrow> (exn + jsstring) \<times> arrival list" where
  "read_loop L fresh left reply net =
     (if left > 0 then
        (case read fresh (nat left) net of
           (Inl e, net') \<Rightarrow> (Inl e, net')
         | (Inr None, net') \<Rightarrow> (Inl (Failure (ascii ''Unable to read reply'')), net')
         | (Inr (Some r), net') \<Rightarrow>
             read_loop L fresh (left - int (length r)) (reply @ buffer_toString L r) net')
      else (Inr reply, net))"
  by pat_completeness auto
termination
  by (relation "measure (\<lambda>(L, fresh, left, reply, net). nat left)")
     (auto simp: read_def recv_def split: list.splits arrival.splits if_splits)

declare read_loop.simps [simp del]

text \<open>
  \<^verbatim>\<open>let data = this.read(4);
  let reply = "";
  if (data !== null && data.length === 4) {
    let l = bufferpack.unpack(">i", data)[0];
    let left = l;
    while (left > 0) { ... } }
  return reply.toString();\<close>
\<close>

definition receiveMessageCore ::
  "libraries \<Rightarrow> (nat \<Rightarrow> byte) \<Rightarrow> arrival list \<Rightarrow> (exn + jsstring) \<times> arrival list" where
  "receiveMessageCore L fresh net =
     (case read fresh 4 net of
        (Inl e, net') \<Rightarrow> (Inl e, net')
      | (Inr None, net') \<Rightarrow> (Inr [], net')
      | (Inr (Some data), net') \<Rightarrow>
          if length data = 4 then read_loop L fresh (readInt32BE data) [] net'
          else (Inr [], net'))"

text \<open>
  \<^verbatim>\<open>let message = this.receiveMessageCore();
  if (this.format === CoreTypes.kCFPropertyListXMLFormat_v1_0) {
    let reply = plist.parse(message); return reply; }
  // TODO: add parsing for binary plists
  return null;\<close>
\<close>

definition WinSocket_receiveMessage ::
  "libraries \<Rightarrow> int \<Rightarrow> (nat \<Rightarrow> byte) \<Rightarrow> arrival list \<Rightarrow> (exn + jsval) \<times> arrival list" where
  "WinSocket_receiveMessage L fmt fresh net =
     (case receiveMessageCore L fresh net of
        (Inl e, net') \<Rightarrow> (Inl e, net')
      | (Inr message, net') \<Rightarrow>
          if fmt = kCFPropertyListXMLFormat_v1_0 then (plist_parse L message, net')
          else (Inr JNull, net'))"

text \<open>What is left to arrive after a read that took the front of the first piece.\<close>

definition leftover :: "byte list \<Rightarrow> arrival list \<Rightarrow> arrival list" where
  "leftover extra rest = (if extra = [] then rest else Arrive extra # rest)"

section \<open>WinSocket.createPlist\<close>

text \<open>\<open>obj[key] = v\<close>: replaces the value of an existing key, else adds the key last.\<close>

fun js_set :: "(jsstring \<times> jsval) list \<Rightarrow> jsstring \<Rightarrow> jsval \<Rightarrow> (jsstring \<times> jsval) list" where
  "js_set [] k v = [(k, v)]"
| "js_set ((k', v') # kvs) k v = (if k' = k then (k', v) # kvs else (k', v') # js_set kvs k v)"

text \<open>
  The typed node that the loop body of \<open>createPlist\<close> builds for one value:
  \<^verbatim>\<open>if (values[i] instanceof Buffer) { type = "data"; value = values[i].toString("base64") }
  else if (values[i] instanceof Object) { type = "dict"; value = {}; }
  else if (typeof(values[i]) === "number") { type = "integer"; value = values[i]; }
  else { type = "string"; value = values[i]; }\<close>
\<close>

fun plist_node :: "libraries \<Rightarrow> jsval \<Rightarrow> jsval" where
  "plist_node L (JBuf b) =
     JObj [(ascii ''type'', JStr (ascii ''data'')), (ascii ''value'', JStr (toString_base64 L b))]"
| "plist_node L (JObj kvs) =
     JObj [(ascii ''type'', JStr (ascii ''dict'')), (ascii ''value'', JObj [])]"
| "plist_node L (JArr xs) =
     JObj [(ascii ''type'', JStr (ascii ''dict'')), (ascii ''value'', JObj [])]"
| "plist_node L (JNum n) =
     JObj [(ascii ''type'', JStr (ascii ''integer'')), (ascii ''value'', JNum n)]"
| "plist_node L v =
     JObj [(ascii ''type'', JStr (ascii ''string'')), (ascii ''value'', v)]"

fun createPlist_loop ::
  "libraries \<Rightarrow> (jsstring \<times> jsval) list \<Rightarrow> (jsstring \<times> jsval) list \<Rightarrow> (jsstring \<times> jsval) list" where
  "createPlist_loop L [] acc = acc"
| "createPlist_loop L ((k, v) # kvs) acc = createPlist_loop L kvs (js_set acc k (plist_node L v))"

definition createPlist :: "libraries \<Rightarrow> (jsstring \<times> jsval) list \<Rightarrow> jsval" where
  "createPlist L data =
     JObj [(ascii ''type'', JStr (ascii ''dict'')), (ascii ''value'', JObj (createPlist_loop L data []))]"

section \<open>The launch handshake in the specification's words\<close>

text \<open>The checksum of a payload: the sum of its character codes modulo 256.\<close>

definition checksum :: "jsstring \<Rightarrow> nat" where
  "checksum p = sum_list (map unat p) mod 256"

text \<open>A checksum as exactly two lowercase hexadecimal digits.\<close>

definition two_hex :: "nat \<Rightarrow> jsstring" where
  "two_hex c = [hexdigit (c div 16), hexdigit (c mod 16)]"

text \<open>The packet of a payload: \<open>$\<close>, the payload, \<open>#\<close>, and the two checksum digits.\<close>

definition packet_spec :: "jsstring \<Rightarrow> jsstring" where
  "packet_spec p = ascii ''$'' @ p @ ascii ''#'' @ two_hex (checksum p)"

text \<open>
  The triple \<open>2L,i,H\<close> of argument \<open>i\<close>, with \<open>L\<close> the number of its bytes and \<open>H\<close> their
  hexadecimal rendering.
\<close>

definition triple_spec :: "nat \<Rightarrow> jsstring \<Rightarrow> jsstring" where
  "triple_spec i arg =
     toString10 (2 * length (utf8_encode arg)) @ ascii '','' @ toString10 i @ ascii '',''
     @ toString_hex (utf8_encode arg)"

text \<open>The payload of step 5: \<open>A\<close> and the triples of all arguments, joined with commas.\<close>

definition arguments_payload_spec :: "jsstring list \<Rightarrow> jsstring" where
  "arguments_payload_spec argv =
     ascii ''A'' @ join (ascii '','') (map (\<lambda>(i, arg). triple_spec i arg) (enumerate 0 argv))"

text \<open>The seven writes of the handshake, the last one chosen by "launch only".\<close>

definition handshake_spec :: "bool \<Rightarrow> jsstring list \<Rightarrow> jsstring list" where
  "handshake_spec launch_only argv =
     [packet_spec (ascii ''QStartNoAckMode''),
      ascii ''+'',
      packet_spec (ascii ''QEnvironmentHexEncoded:''),
      packet_spec (ascii ''QSetDisableASLR:1''),
      packet_spec (arguments_payload_spec argv),
      packet_spec (ascii ''qLaunchSuccess''),
      packet_spec (if launch_only then ascii ''D'' else ascii ''vCont;c'')]"

text \<open>The socket writes of a run that starts with nothing written.\<close>

definition run_writes :: "gdb_host \<Rightarrow> jsstring list \<Rightarrow> exn + jsstring list" where
  "run_writes host argv = (case run host argv [] of Inl e \<Rightarrow> Inl e | Inr es \<Rightarrow> Inr (writes es))"

section \<open>Chunks of whole debug packets\<close>

text \<open>
  A chunk as the debug server sends it: packets \<open>$payload#hh\<close> with two checksum bytes,
  and bytes between packets (such as the acknowledgement \<open>+\<close>). A payload holds no \<open>#\<close>,
  and a byte between packets is not \<open>$\<close>.
\<close>

datatype item = Noise byte | Packet "byte list" byte byte

fun render_item :: "item \<Rightarrow> byte list" where
  "render_item (Noise b) = [b]"
| "render_item (Packet payload c1 c2) = byte_of CHR ''$'' # payload @ [byte_of CHR ''#'', c1, c2]"

definition render :: "item list \<Rightarrow> byte list" where
  "render items = concat (map render_item items)"

fun well_formed :: "item \<Rightarrow> bool" where
  "well_formed (Noise b) = (b \<noteq> byte_of CHR ''$'')"
| "well_formed (Packet payload c1 c2) = (byte_of CHR ''#'' \<notin> set payload)"

text \<open>
  The specification's test for console output: the first payload byte is \<open>O\<close> and the
  second payload byte is not \<open>K\<close>.
\<close>

fun qualifies :: "byte list \<Rightarrow> bool" where
  "qualifies [] = False"
| "qualifies [a] = (a = byte_of CHR ''O'')"
| "qualifies (a # b # rest) = (a = byte_of CHR ''O'' \<and> b \<noteq> byte_of CHR ''K'')"

text \<open>
  The console text of the packets of a chunk, in the specification's words: for a
  qualifying packet drop the leading \<open>O\<close>, hex-decode the rest and feed the bytes to the
  decoder, whose state goes on to the next packet; a payload that fails to hex-decode
  ends the chunk with the exception.
\<close>

fun console_output ::
  "(jsstring \<Rightarrow> exn + byte list) \<Rightarrow> ('d \<Rightarrow> byte list \<Rightarrow> jsstring \<times> 'd) \<Rightarrow> item list
   \<Rightarrow> jsstring \<Rightarrow> 'd \<Rightarrow> (exn + jsstring) \<times> 'd" where
  "console_output hexdec decwrite [] result dec = (Inr result, dec)"
| "console_output hexdec decwrite (Noise b # items) result dec =
     console_output hexdec decwrite items result dec"
| "console_output hexdec decwrite (Packet payload c1 c2 # items) result dec =
     (if qualifies payload then
        (case hexdec (map (\<lambda>b. ucast (b AND 0x7F)) (tl payload)) of
           Inl e \<Rightarrow> (Inl e, dec)
         | Inr hex \<Rightarrow>
             console_output hexdec decwrite items (result @ fst (decwrite dec hex))
               (snd (decwrite dec hex)))
      else console_output hexdec decwrite items result dec)"

text \<open>Every \<open>$\<close> of the chunk has a \<open>#\<close> somewhere after it.\<close>

fun dollars_closed :: "byte list \<Rightarrow> bool" where
  "dollars_closed [] = True"
| "dollars_closed (b # bs) =
     ((if b = byte_of CHR ''$'' then byte_of CHR ''#'' \<in> set bs else True) \<and> dollars_closed bs)"

section \<open>Runs of the receive loop\<close>

text \<open>The socket after \<open>Buffer.concat([this.buffer, data])\<close>.\<close>

definition append_data :: "byte list \<Rightarrow> posix_socket \<Rightarrow> posix_socket" where
  "append_data d s = s\<lparr>buffer := buffer s @ d\<rparr>"

text \<open>
  The socket expects a length of four bytes, or a payload whose declared length is not
  negative.
\<close>

definition expects :: "posix_socket \<Rightarrow> bool" where
  "expects s = (case state s of Length \<Rightarrow> length_field s = 4 | Plist \<Rightarrow> 0 \<le> length_field s)"

text \<open>
  The loop, started in \<open>s\<close>, runs to its end through states that expect a length or a
  payload of non-negative length (no length read from the buffer is negative).
\<close>

inductive safe :: "libraries \<Rightarrow> posix_socket \<Rightarrow> bool" for L where
  stop: "expects s \<Longrightarrow> while_step L s = None \<Longrightarrow> safe L s"
| step: "expects s \<Longrightarrow> while_step L s = Some (Inr s') \<Longrightarrow> safe L s' \<Longrightarrow> safe L s"

text \<open>
  The outcome of decoding one payload: the parser's exception, or the dictionary \<open>d\<close> of
  the decoded array \<open>[d]\<close>; what the outcome adds to the log; and what it makes of the
  future (\<open>result.return\<close> under \<open>!result.isResolved()\<close>).
\<close>

fun decodes :: "libraries \<Rightarrow> byte list \<Rightarrow> exn + (jsstring \<times> jsval) list \<Rightarrow> bool" where
  "decodes L p (Inl e) = (parseBuffer L p = Inl e)"
| "decodes L p (Inr d) =
     (parseBuffer L p = Inr (JArr [JObj d]) \<and> \<not> has_field d (ascii ''0''))"

fun outcome_log :: "libraries \<Rightarrow> exn + (jsstring \<times> jsval) list \<Rightarrow> log_entry list" where
  "outcome_log L (Inl e) = [TraceException (ascii ''Failed to parse bplist: '') e]"
| "outcome_log L (Inr d) = message_log L d"

fun resolve :: "jsval option \<Rightarrow> exn + (jsstring \<times> jsval) list \<Rightarrow> jsval option" where
  "resolve (Some v) r = Some v"
| "resolve None (Inl e) = None"
| "resolve None (Inr d) =
     (if js_prop d (ascii ''Status'') = JStr (ascii ''Complete'') then Some (JObj d) else None)"

text \<open>
  Stand-ins for the library functions, for evaluating the sockets on examples. The binary
  parser accepts a payload that starts with \<open>C\<close> or \<open>S\<close> and decodes it to the array of
  one dictionary: \<open>{Status: "Complete", Tag: rest}\<close> for \<open>C\<close>, \<open>{Status: rest}\<close> for \<open>S\<close>;
  the XML parser accepts texts that start with \<open><\<close>.
\<close>

definition stub_dictionary :: "byte list \<Rightarrow> (jsstring \<times> jsval) list" where
  "stub_dictionary b =
     (case b of
        [] \<Rightarrow> []
      | t # rest \<Rightarrow>
          if t = byte_of CHR ''C''
          then [(ascii ''Status'', JStr (ascii ''Complete'')), (ascii ''Tag'', JStr (map ucast rest))]
          else [(ascii ''Status'', JStr (map ucast rest))])"

definition stub_libraries :: libraries where
  "stub_libraries =
     \<lparr>parseBuffer = (\<lambda>b. case b of
                          [] \<Rightarrow> Inl ParseError
                        | t # rest \<Rightarrow>
                            if t = byte_of CHR ''C'' \<or> t = byte_of CHR ''S''
                            then Inr (JArr [JObj (stub_dictionary b)])
                            else Inl ParseError),
      plist_parse = (\<lambda>s. if take 1 s = ascii ''<'' then Inr (JStr s) else Inl ParseError),
      buffer_toString = map ucast,
      to_string = (\<lambda>v. case v of JStr s \<Rightarrow> s | _ \<Rightarrow> ascii ''[object]''),
      toString_base64 = map ucast\<rparr>"

section \<open>Properties of the completion predicate\<close>

lemma isDataReceivingCompleted_true_iff:
  "(isDataReceivingCompleted reply = JBool True) =
     (truthy (js_prop reply (ascii ''Status'')) \<and> truthy (js_prop reply (ascii ''Complete''))
      \<and> \<not> truthy (js_prop reply (ascii ''PercentComplete'')))"
  unfolding isDataReceivingCompleted_def js_and_def js_not_def
  by (cases "js_prop reply (ascii ''Status'')"; cases "js_prop reply (ascii ''Complete'')") auto

text \<open>
  C1, as stated, fails: a reply that carries \<open>PercentComplete: 0\<close> next to
  \<open>Status: "Complete"\<close> and \<open>Complete: true\<close> contains a PercentComplete field, yet the
  predicate returns true, because the code tests the fields for truthiness and not for
  presence.
\<close>

theorem isDataReceivingCompleted_presence_counterexample:
  "isDataReceivingCompleted
     [(ascii ''Status'', JStr (ascii ''Complete'')), (ascii ''Complete'', JBool True),
      (ascii ''PercentComplete'', JNum 0)] = JBool True
   \<and> \<not> isComplete_spec
     [(ascii ''Status'', JStr (ascii ''Complete'')), (ascii ''Complete'', JBool True),
      (ascii ''PercentComplete'', JNum 0)]"
  by (simp add: isDataReceivingCompleted_def isComplete_spec_def js_prop_def has_field_def
      js_and_def js_not_def ascii_def)

text \<open>
  C1, amended: the predicate returns true if and only if the reply's Status is truthy, its
  Complete is truthy and its PercentComplete is falsy (absent, or present as 0, the empty
  string, false or null). The three examples of the specification come out as stated:
  \<open>{Status:"Complete", Complete:true}\<close> is complete,
  \<open>{Status:"Complete", Complete:true, PercentComplete:50}\<close> is not, and
  \<open>{Complete:true}\<close> without Status is not (the predicate returns \<open>undefined\<close>).
\<close>

theorem isDataReceivingCompleted_truthiness:
  "(isDataReceivingCompleted reply = JBool True) =
     (truthy (js_prop reply (ascii ''Status'')) \<and> truthy (js_prop reply (ascii ''Complete''))
      \<and> \<not> truthy (js_prop reply (ascii ''PercentComplete'')))
   \<and> isDataReceivingCompleted
        [(ascii ''Status'', JStr (ascii ''Complete'')), (ascii ''Complete'', JBool True)]
       = JBool True
   \<and> isDataReceivingCompleted
        [(ascii ''Status'', JStr (ascii ''Complete'')), (ascii ''Complete'', JBool True),
         (ascii ''PercentComplete'', JNum 50)] = JBool False
   \<and> isDataReceivingCompleted [(ascii ''Complete'', JBool True)] = JUndefined"
proof -
  have "isDataReceivingCompleted
        [(ascii ''Status'', JStr (ascii ''Complete'')), (ascii ''Complete'', JBool True)]
       = JBool True"
    by (simp add: isDataReceivingCompleted_def js_prop_def js_and_def js_not_def ascii_def)
  moreover have "isDataReceivingCompleted
        [(ascii ''Status'', JStr (ascii ''Complete'')), (ascii ''Complete'', JBool True),
         (ascii ''PercentComplete'', JNum 50)] = JBool False"
    by (simp add: isDataReceivingCompleted_def js_prop_def js_and_def js_not_def ascii_def)
  moreover have "isDataReceivingCompleted [(ascii ''Complete'', JBool True)] = JUndefined"
    by (simp add: isDataReceivingCompleted_def js_prop_def js_and_def js_not_def ascii_def)
  ultimately show ?thesis
    using isDataReceivingCompleted_true_iff [of reply] by blast
qed

theorem isDataReceivingCompleted_truthiness_witness:
  "isDataReceivingCompleted
     [(ascii ''Status'', JStr (ascii ''Installing'')), (ascii ''Complete'', JNum 1)]
   = JBool True"
proof -
  have "truthy (js_prop [(ascii ''Status'', JStr (ascii ''Installing'')),
                         (ascii ''Complete'', JNum 1)] (ascii ''Status''))"
    by (simp add: js_prop_def ascii_def)
  moreover have "truthy (js_prop [(ascii ''Status'', JStr (ascii ''Installing'')),
                         (ascii ''Complete'', JNum 1)] (ascii ''Complete''))"
    by (simp add: js_prop_def ascii_def)
  moreover have "\<not> truthy (js_prop [(ascii ''Status'', JStr (ascii ''Installing'')),
                         (ascii ''Complete'', JNum 1)] (ascii ''PercentComplete''))"
    by (simp add: js_prop_def ascii_def)
  ultimately show ?thesis
    using isDataReceivingCompleted_truthiness
      [of "[(ascii ''Status'', JStr (ascii ''Installing'')), (ascii ''Complete'', JNum 1)]"]
    by blast
qed

section \<open>Properties of the debug packets and of the launch handshake\<close>

text \<open>
  The literals that the adapter and the watcher compare bytes with: their code points
  are the bytes of the characters.
\<close>

lemma literal_code_points:
  "getCharacterCodePoint (ascii ''$'') = Inr (unat (byte_of CHR ''$''))"
  "getCharacterCodePoint (ascii ''#'') = Inr (unat (byte_of CHR ''#''))"
  "getCharacterCodePoint (ascii ''O'') = Inr (unat (byte_of CHR ''O''))"
  "getCharacterCodePoint (ascii ''K'') = Inr (unat (byte_of CHR ''K''))"
  "getCharacterCodePoint (ascii ''T'') = Inr (unat (byte_of CHR ''T''))"
  "getCharacterCodePoint (ascii ''S'') = Inr (unat (byte_of CHR ''S''))"
  "getCharacterCodePoint (ascii ''9'') = Inr (unat (byte_of CHR ''9''))"
  by (simp_all add: getCharacterCodePoint_def ascii_def byte_of_def)

lemma and_255: "(n::nat) AND 255 = n mod 256"
proof -
  have "n AND mask 8 = take_bit 8 n" by (rule take_bit_eq_mask [symmetric])
  then show ?thesis by (simp add: take_bit_eq_mod mask_eq_exp_minus_1)
qed

lemma hexdigit_ascii: "d < 16 \<Longrightarrow> unat (hexdigit d) < 128"
proof -
  assume d: "d < 16"
  have "\<forall>c \<in> set (ascii ''0123456789abcdef''). unat c < 128"
    by (simp add: ascii_def)
  moreover have "hexdigit d \<in> set (ascii ''0123456789abcdef'')"
    unfolding hexdigit_def using d by (intro nth_mem) (simp add: ascii_def)
  ultimately show ?thesis by blast
qed

lemma toString10_ascii: "\<forall>c \<in> set (toString10 n). unat c < 128"
proof (induction n rule: toString10.induct)
  case (1 n)
  show ?case
  proof (cases "n < 10")
    case True
    then show ?thesis using hexdigit_ascii [of n] by simp
  next
    case False
    have "n mod 10 < 16" by simp
    with False 1 show ?thesis using hexdigit_ascii [of "n mod 10"]
      by (subst toString10.simps) (simp del: toString10.simps)
  qed
qed

lemma toString_hex_ascii: "\<forall>c \<in> set (toString_hex bs). unat c < 128"
proof -
  have "unat b div 16 < 16" for b :: byte
    using unsigned_less [of b, where ?'a = nat] by simp
  then show ?thesis
    by (auto simp: toString_hex_def intro: hexdigit_ascii)
qed

lemma join_ascii:
  "\<forall>c \<in> set sep. P c \<Longrightarrow> \<forall>x \<in> set xs. \<forall>c \<in> set x. P c \<Longrightarrow> \<forall>c \<in> set (join sep xs). P c"
  by (induction sep xs rule: join.induct) auto

lemma sum_loop_valid:
  "\<forall>c \<in> set p. unat c < 0xD800 \<Longrightarrow> sum_loop p acc = Inr (acc + sum_list (map unat p))"
  by (induction p arbitrary: acc) (auto simp: getCharacterCodePoint_def)

lemma send_data_valid:
  "\<forall>c \<in> set p. unat c < 0xD800 \<Longrightarrow>
   send_data p = Inr (ascii ''$'' @ p @ ascii ''#'' @ toString16 (checksum p))"
  by (simp add: send_data_def sum_loop_valid and_255 checksum_def del: toString16.simps)

lemma toString16_two_hex: "16 \<le> c \<Longrightarrow> c < 256 \<Longrightarrow> toString16 c = two_hex c"
proof -
  assume c: "16 \<le> c" "c < 256"
  then have "c div 16 < 16" by simp
  then have "toString16 (c div 16) = [hexdigit (c div 16)]" by simp
  with c show ?thesis
    by (subst toString16.simps) (simp add: two_hex_def del: toString16.simps)
qed

lemma send_data_packet_spec:
  assumes "\<forall>c \<in> set p. unat c < 0xD800" "16 \<le> checksum p"
  shows "send_data p = Inr (packet_spec p)"
proof -
  have "checksum p < 256" by (simp add: checksum_def)
  with assms(2) have "toString16 (checksum p) = two_hex (checksum p)"
    by (rule toString16_two_hex)
  with send_data_valid [OF assms(1)] show ?thesis
    by (simp add: packet_spec_def del: toString16.simps)
qed

lemma ascii_unit:
  assumes "unat c < 128"
  shows "\<not> is_high_surrogate c" and "\<not> is_low_surrogate c"
    and "utf8_of_codepoint (unat c) = [ucast c]"
  using assms by (simp_all add: is_high_surrogate_def is_low_surrogate_def utf8_of_codepoint_def)

lemma utf8_encode_ascii: "\<forall>c \<in> set s. unat c < 128 \<Longrightarrow> utf8_encode s = map ucast s"
proof (induction s rule: utf8_encode.induct)
  case 1
  then show ?case by simp
next
  case (2 c)
  then have "unat c < 128" by simp
  from ascii_unit [OF this] show ?case by simp
next
  case (3 c d rest)
  then have c: "unat c < 128" by simp
  note u = ascii_unit [OF c]
  from 3 have "utf8_encode (d # rest) = map ucast (d # rest)"
    using u by simp
  with u show ?case by simp
qed

lemma encodedArguments_ascii:
  assumes "\<forall>arg \<in> set argv. \<forall>c \<in> set arg. unat c < 128"
  shows "ascii ''A'' @ encodedArguments argv = arguments_payload_spec argv"
proof -
  have "(case x of (index, arg) \<Rightarrow> toString10 (length arg * 2) @ ascii '','' @ toString10 index @ ascii '',''
               @ toString_hex (utf8_encode arg)) = (case x of (i, arg) \<Rightarrow> triple_spec i arg)"
    if "x \<in> set (enumerate 0 argv)" for x
  proof -
    obtain i arg where x: "x = (i, arg)" by (cases x)
    with that have "arg \<in> set argv" by (auto simp: in_set_enumerate_eq)
    with assms have "utf8_encode arg = map ucast arg" by (intro utf8_encode_ascii) blast
    then show ?thesis by (simp add: x triple_spec_def mult.commute del: toString10.simps)
  qed
  then have "encodedArguments argv
             = join (ascii '','') (map (\<lambda>(i, arg). triple_spec i arg) (enumerate 0 argv))"
    unfolding encodedArguments_def by (intro arg_cong [where f = "join (ascii '','')"] map_cong) auto
  then show ?thesis
    by (simp add: arguments_payload_spec_def)
qed

lemma encodedArguments_valid: "\<forall>c \<in> set (encodedArguments argv). unat c < 128"
  unfolding encodedArguments_def
  apply (rule join_ascii)
   apply (simp add: ascii_def)
  using toString10_ascii toString_hex_ascii
  apply (auto simp: ascii_def simp del: toString10.simps)
  done

lemma send_valid:
  assumes "\<forall>c \<in> set p. unat c < 128" "16 \<le> checksum p"
  shows "send p es = Inr (es @ [SocketWrite (packet_spec p)])"
proof -
  from assms(1) have "\<forall>c \<in> set p. unat c < 0xD800" by fastforce
  from send_data_packet_spec [OF this assms(2)] show ?thesis
    by (simp add: send_def socket_write_def)
qed

lemma writes_append: "writes (xs @ ys) = writes xs @ writes ys"
  by (induction xs rule: writes.induct) auto

text \<open>
  C4: the specification asks for exactly two lowercase hexadecimal digits after \<open>#\<close>.
  \<open>send\<close> renders the checksum with \<open>toString(16)\<close> and does not pad it: for the
  argument list \<open>["-v"]\<close> the handshake sends the payload \<open>A4,0,2d76\<close>, whose checksum is
  0, as \<open>$A4,0,2d76#0\<close>, with one digit.
\<close>

theorem send_data_one_digit_checksum:
  "ascii ''A'' @ encodedArguments [ascii ''-v''] = ascii ''A4,0,2d76''
   \<and> send_data (ascii ''A'' @ encodedArguments [ascii ''-v'']) = Inr (ascii ''$A4,0,2d76#0'')"
  by (simp add: send_data_def encodedArguments_def ascii_def getCharacterCodePoint_def hexdigit_def
    toString_hex_def is_high_surrogate_def is_low_surrogate_def utf8_of_codepoint_def)

text \<open>
  C6, as stated, fails on a Windows host configured launch-only: the code sends \<open>vCont;c\<close>
  there, where the claim has \<open>D\<close>.
\<close>

theorem run_windows_justlaunch_counterexample:
  "run_writes \<lparr>isWindows = True, justlaunch = True\<rparr> []
     = Inr [ascii ''$QStartNoAckMode#b0'', ascii ''+'', ascii ''$QEnvironmentHexEncoded:#f7'',
            ascii ''$QSetDisableASLR:1#ce'', ascii ''$A#41'', ascii ''$qLaunchSuccess#a5'',
            ascii ''$vCont;c#a8'']
   \<and> handshake_spec True []
     = [ascii ''$QStartNoAckMode#b0'', ascii ''+'', ascii ''$QEnvironmentHexEncoded:#f7'',
            ascii ''$QSetDisableASLR:1#ce'', ascii ''$A#41'', ascii ''$qLaunchSuccess#a5'',
            ascii ''$D#44'']"
  by (simp add: run_writes_def run_def handshake_spec_def send_def send_data_def socket_write_def
      encodedArguments_def arguments_payload_spec_def packet_spec_def checksum_def two_hex_def
      ascii_def getCharacterCodePoint_def hexdigit_def)

text \<open>
  C6, amended: for every list of ASCII arguments for which the checksum of the \<open>A\<close>
  payload is at least 16, the handshake writes exactly, in this order, the packet
  \<open>QStartNoAckMode\<close>, the raw \<open>+\<close>, the packets \<open>QEnvironmentHexEncoded:\<close>,
  \<open>QSetDisableASLR:1\<close>, \<open>A\<close> followed by the comma-joined triples \<open>2L,i,H\<close>,
  \<open>qLaunchSuccess\<close>, and finally \<open>D\<close> when the host is not Windows and is configured
  launch-only, \<open>vCont;c\<close> otherwise; each packet is \<open>$\<close>, its payload, \<open>#\<close> and two
  checksum digits.
\<close>

theorem run_handshake_ascii:
  assumes "\<forall>arg \<in> set argv. \<forall>c \<in> set arg. unat c < 128"
    and "16 \<le> checksum (arguments_payload_spec argv)"
  shows "run_writes host argv = Inr (handshake_spec (\<not> isWindows host \<and> justlaunch host) argv)"
proof -
  note A_eq = encodedArguments_ascii [OF assms(1)]
  have A: "\<forall>c \<in> set (ascii ''A'' @ encodedArguments argv). unat c < 128"
    using encodedArguments_valid [of argv] by (auto simp: ascii_def)
  have s1: "send (ascii ''QStartNoAckMode'') es
            = Inr (es @ [SocketWrite (packet_spec (ascii ''QStartNoAckMode''))])" for es
    by (rule send_valid) (simp_all add: ascii_def checksum_def)
  have s2: "send (ascii ''QEnvironmentHexEncoded:'') es
            = Inr (es @ [SocketWrite (packet_spec (ascii ''QEnvironmentHexEncoded:''))])" for es
    by (rule send_valid) (simp_all add: ascii_def checksum_def)
  have s3: "send (ascii ''QSetDisableASLR:1'') es
            = Inr (es @ [SocketWrite (packet_spec (ascii ''QSetDisableASLR:1''))])" for es
    by (rule send_valid) (simp_all add: ascii_def checksum_def)
  have s4: "send (ascii ''qLaunchSuccess'') es
            = Inr (es @ [SocketWrite (packet_spec (ascii ''qLaunchSuccess''))])" for es
    by (rule send_valid) (simp_all add: ascii_def checksum_def)
  have s5: "send (ascii ''vCont;c'') es
            = Inr (es @ [SocketWrite (packet_spec (ascii ''vCont;c''))])" for es
    by (rule send_valid) (simp_all add: ascii_def checksum_def)
  have s6: "send (ascii ''D'') es = Inr (es @ [SocketWrite (packet_spec (ascii ''D''))])" for es
    by (rule send_valid) (simp_all add: ascii_def checksum_def)
  have s7: "send (ascii ''A'' @ encodedArguments argv) es
            = Inr (es @ [SocketWrite (packet_spec (arguments_payload_spec argv))])" for es
    using send_valid [OF A, of es] assms(2) by (simp only: A_eq)
  have "run_writes host argv
        = Inr [packet_spec (ascii ''QStartNoAckMode''), ascii ''+'',
               packet_spec (ascii ''QEnvironmentHexEncoded:''),
               packet_spec (ascii ''QSetDisableASLR:1''),
               packet_spec (arguments_payload_spec argv),
               packet_spec (ascii ''qLaunchSuccess''),
               packet_spec (if \<not> isWindows host \<and> justlaunch host then ascii ''D''
                            else ascii ''vCont;c'')]"
    unfolding run_writes_def run_def
    by (simp add: s1 s2 s3 s4 s5 s6 s7 socket_write_def pipe_to_def)
  then show ?thesis
    by (simp add: handshake_spec_def)
qed

theorem run_handshake_ascii_witness:
  "run_writes \<lparr>isWindows = False, justlaunch = True\<rparr> [ascii ''-v'', ascii ''app'']
     = Inr [ascii ''$QStartNoAckMode#b0'', ascii ''+'', ascii ''$QEnvironmentHexEncoded:#f7'',
            ascii ''$QSetDisableASLR:1#ce'', ascii ''$A4,0,2d76,6,1,617070#20'',
            ascii ''$qLaunchSuccess#a5'', ascii ''$D#44'']"
proof -
  have a: "\<forall>arg \<in> set [ascii ''-v'', ascii ''app'']. \<forall>c \<in> set arg. unat c < 128"
    by (simp add: ascii_def)
  have p: "arguments_payload_spec [ascii ''-v'', ascii ''app''] = ascii ''A4,0,2d76,6,1,617070''"
    by (simp add: arguments_payload_spec_def triple_spec_def ascii_def hexdigit_def
        toString_hex_def is_high_surrogate_def is_low_surrogate_def utf8_of_codepoint_def)
  have c: "16 \<le> checksum (arguments_payload_spec [ascii ''-v'', ascii ''app''])"
    unfolding p by (simp add: checksum_def ascii_def)
  from run_handshake_ascii [OF a c, of "\<lparr>isWindows = False, justlaunch = True\<rparr>"]
  show ?thesis
    unfolding handshake_spec_def p
    by (simp add: packet_spec_def checksum_def two_hex_def ascii_def hexdigit_def)
qed

section \<open>Properties of the signal watcher\<close>

text \<open>
  What the loop tests: the process exits exactly when some \<open>$\<close> is followed by \<open>T\<close> or
  \<open>S\<close> and then, immediately, by \<open>9\<close>.
\<close>

lemma watch_loop_exit_iff:
  "watch_loop packet i = ProcessExit 1 \<longleftrightarrow>
   (\<exists>j\<ge>i. j + 2 < length packet \<and> packet ! j = byte_of CHR ''$''
      \<and> (packet ! (j + 1) = byte_of CHR ''T'' \<or> packet ! (j + 1) = byte_of CHR ''S'')
      \<and> packet ! (j + 2) = byte_of CHR ''9'')"
proof (induction packet i rule: watch_loop.induct)
  case (1 packet i)
  show ?case
  proof (cases "int i < int (length packet) - 2")
    case False
    then show ?thesis by (subst watch_loop.simps) auto
  next
    case True
    then have i: "i + 2 < length packet" by linarith
    let ?hit = "\<lambda>j. packet ! j = byte_of CHR ''$''
      \<and> (packet ! (j + 1) = byte_of CHR ''T'' \<or> packet ! (j + 1) = byte_of CHR ''S'')
      \<and> packet ! (j + 2) = byte_of CHR ''9''"
    show ?thesis
    proof (cases "?hit i")
      case True
      with i \<open>int i < int (length packet) - 2\<close> show ?thesis
        by (subst watch_loop.simps) auto
    next
      case False
      with \<open>int i < int (length packet) - 2\<close>
      have "watch_loop packet i = watch_loop packet (i + 1)"
        by (subst watch_loop.simps) auto
      moreover have "watch_loop packet (i + 1) = ProcessExit 1 \<longleftrightarrow>
         (\<exists>j\<ge>i + 1. j + 2 < length packet \<and> ?hit j)"
        using 1 \<open>int i < int (length packet) - 2\<close> False by auto
      moreover have "(\<exists>j\<ge>i + 1. j + 2 < length packet \<and> ?hit j) \<longleftrightarrow> (\<exists>j\<ge>i. j + 2 < length packet \<and> ?hit j)"
      proof
        assume "\<exists>j\<ge>i + 1. j + 2 < length packet \<and> ?hit j"
        then obtain j where "j \<ge> i + 1" "j + 2 < length packet \<and> ?hit j" by blast
        then have "j \<ge> i" by simp
        with \<open>j + 2 < length packet \<and> ?hit j\<close> show "\<exists>j\<ge>i. j + 2 < length packet \<and> ?hit j" by blast
      next
        assume "\<exists>j\<ge>i. j + 2 < length packet \<and> ?hit j"
        then obtain j where j: "j \<ge> i" "j + 2 < length packet \<and> ?hit j" by blast
        with False have "j \<noteq> i" by blast
        with j have "j \<ge> i + 1" by simp
        with j show "\<exists>j\<ge>i + 1. j + 2 < length packet \<and> ?hit j" by blast
      qed
      ultimately show ?thesis by simp
    qed
  qed
qed

text \<open>
  C5: a stop reply reports its signal as two hexadecimal digits after \<open>T\<close>, so signal 9
  (the watcher's own comment names SIGKILL) arrives as \<open>$T09...\<close>, with \<open>9\<close> as the third
  payload byte. The watcher tests \<open>packet[i + 2]\<close>, the second payload byte, which is
  \<open>0\<close> there: the process is not terminated.
\<close>

theorem GDBSignalWatcher_write_T09_not_detected:
  "GDBSignalWatcher_write (bytes ''$T09thread:01;#00'') = Callback None"
  by (simp add: GDBSignalWatcher_write_def bytes_def byte_of_def watch_loop.simps)

section \<open>Properties of WinSocket.createPlist and WinSocket.receiveMessage\<close>

text \<open>
  C3: \<open>createPlist\<close> writes every nested dictionary as an empty \<open>dict\<close> node, so a
  dictionary of nesting depth 2 and the same dictionary with the inner one emptied have
  the same encoding and no decoder can give both back; and \<open>receiveMessage\<close> returns
  \<open>null\<close> for every message when the format is binary.
\<close>

theorem createPlist_drops_nested_dictionary:
  "createPlist L [(ascii ''a'', JObj [(ascii ''b'', JStr (ascii ''x''))])]
     = createPlist L [(ascii ''a'', JObj [])]
   \<and> [(ascii ''a'', JObj [(ascii ''b'', JStr (ascii ''x''))])] \<noteq> [(ascii ''a'', JObj [])]
   \<and> fst (WinSocket_receiveMessage L kCFPropertyListBinaryFormat_v1_0 fresh
            [Arrive (frame (bytes ''bplist00''))]) = Inr JNull"
  by (simp add: createPlist_def WinSocket_receiveMessage_def receiveMessageCore_def read_def
      recv_def frame_def pack_i32be_def bytes_def readInt32BE_def read_loop.simps
      kCFPropertyListBinaryFormat_v1_0_def kCFPropertyListXMLFormat_v1_0_def)

section \<open>Properties of the output adapter\<close>

lemma while_not_hash_sound:
  assumes "while_not_hash packet i = Some j"
  shows "i \<le> j \<and> js_index packet j = Some (byte_of CHR ''#'')
     \<and> (\<forall>k. i \<le> k \<and> k < j \<longrightarrow> js_index packet k \<noteq> Some (byte_of CHR ''#''))"
proof (rule while_not_hash.raw_induct [OF _ assms], goal_cases)
  case (1 f packet i j)
  show ?case
  proof (cases "js_index packet i \<noteq> Some (byte_of CHR ''#'')")
    case True
    with 1(2) have "f packet (i + 1) = Some j" by simp
    from 1(1) [OF this] have le: "i + 1 \<le> j"
      and hash: "js_index packet j = Some (byte_of CHR ''#'')"
      and before: "\<forall>k. i + 1 \<le> k \<and> k < j \<longrightarrow> js_index packet k \<noteq> Some (byte_of CHR ''#'')"
      by blast+
    have "js_index packet k \<noteq> Some (byte_of CHR ''#'')" if "i \<le> k" "k < j" for k
    proof (cases "k = i")
      case True
      with \<open>js_index packet i \<noteq> Some (byte_of CHR ''#'')\<close> show ?thesis by simp
    next
      case False
      with that have "i + 1 \<le> k" by simp
      with before that show ?thesis by blast
    qed
    with le hash show ?thesis by auto
  next
    case False
    with 1(2) show ?thesis by auto
  qed
qed

lemma while_not_hash_none:
  "\<forall>k\<ge>i. js_index packet k \<noteq> Some (byte_of CHR ''#'') \<Longrightarrow> while_not_hash packet i = None"
  using while_not_hash_sound [of packet i] by (cases "while_not_hash packet i") auto

lemma js_index_append: "js_index (pre @ suf) (length pre + k) = js_index suf k"
  by (simp add: js_index_def nth_append)

lemma js_index_append0: "js_index (pre @ suf) (length pre) = js_index suf 0"
  using js_index_append [of pre suf 0] by simp

lemma while_not_hash_payload:
  "byte_of CHR ''#'' \<notin> set pl \<Longrightarrow>
   while_not_hash (pre @ pl @ byte_of CHR ''#'' # rest) (length pre) = Some (length pre + length pl)"
proof (induction pl arbitrary: pre)
  case Nil
  show ?case
    by (subst while_not_hash.simps) (simp add: js_index_append0 js_index_def)
next
  case (Cons a pl)
  from Cons.prems have a: "a \<noteq> byte_of CHR ''#''" and pl: "byte_of CHR ''#'' \<notin> set pl" by auto
  have "while_not_hash (pre @ (a # pl) @ byte_of CHR ''#'' # rest) (length pre)
        = while_not_hash ((pre @ [a]) @ pl @ byte_of CHR ''#'' # rest) (length (pre @ [a]))"
    using a by (subst while_not_hash.simps) (simp add: js_index_append0 js_index_def)
  also have "\<dots> = Some (length (pre @ [a]) + length pl)"
    by (rule Cons.IH [OF pl])
  finally show ?case by simp
qed


lemma qualifies_scan:
  assumes "byte_of CHR ''#'' \<notin> set pl"
  shows "(js_index (pl @ byte_of CHR ''#'' # rest) 0 = Some (byte_of CHR ''O'')
          \<and> js_index (pl @ byte_of CHR ''#'' # rest) 1 \<noteq> Some (byte_of CHR ''K'')) = qualifies pl"
proof (cases pl rule: qualifies.cases)
  case 1
  then show ?thesis by (simp add: js_index_def byte_of_def)
next
  case (2 a)
  then show ?thesis by (simp add: js_index_def byte_of_def)
next
  case (3 a b rest)
  then show ?thesis by (simp add: js_index_def)
qed

lemma toString_ascii_payload:
  "pl \<noteq> [] \<Longrightarrow>
   toString_ascii (pre @ x # pl @ y # rest) (length pre + 2) (length pre + 1 + length pl)
   = map (\<lambda>b. ucast (b AND 0x7F)) (tl pl)"
  by (cases pl) (simp_all add: toString_ascii_def)

lemma scan_items:
  assumes "\<forall>it \<in> set items. well_formed it"
  shows "transform_loop hexdec decwrite (pre @ render items @ suffix) (length pre) result dec
         = (case console_output hexdec decwrite items result dec of
              (Inl e, d) \<Rightarrow> Some (Inl e, d)
            | (Inr r, d) \<Rightarrow>
                transform_loop hexdec decwrite (pre @ render items @ suffix)
                  (length (pre @ render items)) r d)"
  using assms
proof (induction items arbitrary: pre result dec)
  case Nil
  show ?case by (simp add: render_def)
next
  case (Cons it items)
  then have wf: "\<forall>it \<in> set items. well_formed it" by simp
  let ?p = "pre @ render (it # items) @ suffix"
  let ?n = "length (pre @ render (it # items))"
  let ?T = "transform_loop hexdec decwrite"
  have IH: "?T ?p (length pre') r0 d0
            = (case console_output hexdec decwrite items r0 d0 of
                 (Inl e, d) \<Rightarrow> Some (Inl e, d)
               | (Inr r, d) \<Rightarrow> ?T ?p ?n r d)"
    if "pre' @ render items = pre @ render (it # items)" for pre' r0 d0
  proof -
    from that have eq: "pre' @ render items @ suffix = ?p"
      and len: "length (pre' @ render items) = ?n"
      by (simp_all flip: append_assoc)
    show ?thesis
      using Cons.IH [OF wf, of pre' r0 d0] unfolding eq len .
  qed
  show ?case
  proof (cases it)
    case (Noise b)
    with Cons.prems have b: "b \<noteq> byte_of CHR ''$''" by simp
    have "?T ?p (length pre) result dec = ?T ?p (length (pre @ [b])) result dec"
      using b by (subst transform_loop.simps) (simp add: js_index_append0 js_index_def render_def Noise)
    also have "\<dots> = (case console_output hexdec decwrite items result dec of
                 (Inl e, d) \<Rightarrow> Some (Inl e, d)
               | (Inr r, d) \<Rightarrow> ?T ?p ?n r d)"
      by (rule IH) (simp add: render_def Noise)
    also have "console_output hexdec decwrite items result dec
               = console_output hexdec decwrite (it # items) result dec"
      by (simp add: Noise)
    finally show ?thesis .
  next
    case (Packet pl c1 c2)
    with Cons.prems have pl: "byte_of CHR ''#'' \<notin> set pl" by simp
    let ?pre' = "pre @ byte_of CHR ''$'' # pl @ [byte_of CHR ''#'', c1, c2]"
    let ?tail = "c1 # c2 # render items @ suffix"
    have p2: "?p = (pre @ [byte_of CHR ''$'']) @ pl @ byte_of CHR ''#'' # ?tail"
      by (simp add: render_def Packet)
    have fin: "while_not_hash ?p (length pre + 1) = Some (length pre + 1 + length pl)"
      using while_not_hash_payload [OF pl, of "pre @ [byte_of CHR ''$'']" ?tail]
      by (simp only: p2) simp
    have q: "(js_index ?p (length pre + 1) = Some (byte_of CHR ''O'')
              \<and> js_index ?p (length pre + 2) \<noteq> Some (byte_of CHR ''K'')) = qualifies pl"
      using qualifies_scan [OF pl, of ?tail]
        js_index_append [of "pre @ [byte_of CHR ''$'']" "pl @ byte_of CHR ''#'' # ?tail" 0]
        js_index_append [of "pre @ [byte_of CHR ''$'']" "pl @ byte_of CHR ''#'' # ?tail" 1]
      by (simp only: p2) simp
    have dollar: "js_index ?p (length pre) = Some (byte_of CHR ''$'')" and len: "length pre < length ?p"
      by (simp_all add: js_index_append0 js_index_def render_def Packet)
    have next_i: "length pre + 1 + length pl + 3 = length ?pre'" by simp
    have pre': "?pre' @ render items = pre @ render (it # items)"
      by (simp add: render_def Packet)
    show ?thesis
    proof (cases "qualifies pl")
      case False
      have "?T ?p (length pre) result dec = ?T ?p (length ?pre') result dec"
        using False q dollar len fin
        by (subst transform_loop.simps) (simp only: next_i [symmetric], simp)
      also have "\<dots> = (case console_output hexdec decwrite items result dec of
                 (Inl e, d) \<Rightarrow> Some (Inl e, d)
               | (Inr r, d) \<Rightarrow> ?T ?p ?n r d)"
        by (rule IH [OF pre'])
      also have "console_output hexdec decwrite items result dec
               = console_output hexdec decwrite (it # items) result dec"
        using False by (simp add: Packet)
      finally show ?thesis .
    next
      case True
      then have ne: "pl \<noteq> []" by auto
      have str: "toString_ascii ?p (length pre + 2) (length pre + 1 + length pl)
                 = map (\<lambda>b. ucast (b AND 0x7F)) (tl pl)"
        using toString_ascii_payload [OF ne, of pre "byte_of CHR ''$''" "byte_of CHR ''#''" ?tail]
        by (simp add: render_def Packet)
      show ?thesis
      proof (cases "hexdec (map (\<lambda>b. ucast (b AND 0x7F)) (tl pl))")
        case (Inl e)
        have "?T ?p (length pre) result dec = Some (Inl e, dec)"
          using True q dollar len fin str Inl
          by (subst transform_loop.simps) simp
        then show ?thesis
          using True Inl by (simp add: Packet)
      next
        case (Inr hex)
        let ?r = "result @ fst (decwrite dec hex)" and ?d = "snd (decwrite dec hex)"
        have "?T ?p (length pre) result dec = ?T ?p (length ?pre') ?r ?d"
          using True q dollar len fin str Inr
          by (subst transform_loop.simps) (simp only: next_i [symmetric], simp)
        also have "\<dots> = (case console_output hexdec decwrite items ?r ?d of
                 (Inl e, d) \<Rightarrow> Some (Inl e, d)
               | (Inr r, d) \<Rightarrow> ?T ?p ?n r d)"
          by (rule IH [OF pre'])
        also have "console_output hexdec decwrite items ?r ?d
               = console_output hexdec decwrite (it # items) result dec"
          using True Inr by (simp add: Packet)
        finally show ?thesis .
      qed
    qed
  qed
qed

lemma transform_loop_at_end:
  "length packet \<le> i \<Longrightarrow> transform_loop hexdec decwrite packet i r d = Some (Inr r, d)"
  by (subst transform_loop.simps) simp


lemmas adapter_eval =
  GDBStandardOutputAdapter_transform_def transform_loop.simps while_not_hash.simps bytes_def
  byte_of_def js_index_def ascii_def toString_ascii_def hexval_def StringDecoder_write_def
  utf8_need_def is_continuation_def utf8_codepoint_def utf16_units_def

lemma dollars_closed_nth:
  "dollars_closed p \<Longrightarrow> i < length p \<Longrightarrow> p ! i = byte_of CHR ''$''
   \<Longrightarrow> byte_of CHR ''#'' \<in> set (drop (i + 1) p)"
proof (induction p arbitrary: i)
  case Nil
  then show ?case by simp
next
  case (Cons b bs)
  show ?case
  proof (cases i)
    case 0
    with Cons.prems show ?thesis by simp
  next
    case (Suc k)
    with Cons.prems Cons.IH [of k] show ?thesis by simp
  qed
qed

lemma while_not_hash_finds:
  assumes "byte_of CHR ''#'' \<in> set (drop i p)"
  shows "\<exists>j. while_not_hash p i = Some j \<and> i \<le> j \<and> j < length p"
proof -
  from assms obtain pl rest where d: "drop i p = pl @ byte_of CHR ''#'' # rest"
    and pl: "byte_of CHR ''#'' \<notin> set pl"
    by (meson split_list_first)
  from assms have i: "i \<le> length p" by (cases "i \<le> length p") auto
  have p: "p = take i p @ pl @ byte_of CHR ''#'' # rest"
    using d by (metis append_take_drop_id)
  have "while_not_hash (take i p @ pl @ byte_of CHR ''#'' # rest) (length (take i p))
        = Some (length (take i p) + length pl)"
    by (rule while_not_hash_payload [OF pl])
  then have "while_not_hash p i = Some (i + length pl)"
    using i p by (simp add: min_absorb2)
  moreover have "i + length pl < length p"
    using arg_cong [OF d, of length] by simp
  ultimately show ?thesis by simp
qed

lemma transform_loop_terminates:
  assumes "dollars_closed p"
  shows "transform_loop hexdec decwrite p i r d \<noteq> None"
proof (induction "length p - i" arbitrary: i r d rule: less_induct)
  case less
  show ?case
  proof (cases "i < length p")
    case False
    then show ?thesis by (simp add: transform_loop_at_end)
  next
    case True
    show ?thesis
    proof (cases "p ! i = byte_of CHR ''$''")
      case False
      have "transform_loop hexdec decwrite p i r d = transform_loop hexdec decwrite p (i + 1) r d"
        using True False by (subst transform_loop.simps) (simp add: js_index_def)
      moreover have "transform_loop hexdec decwrite p (i + 1) r d \<noteq> None"
        using True by (intro less) simp
      ultimately show ?thesis by simp
    next
      case dollar: True
      from while_not_hash_finds [OF dollars_closed_nth [OF assms True dollar]]
      obtain j where j: "while_not_hash p (i + 1) = Some j" "i + 1 \<le> j" "j < length p"
        by blast
      have smaller: "transform_loop hexdec decwrite p (j + 3) r' d' \<noteq> None" for r' d'
        using True j by (intro less) simp
      show ?thesis
        using True dollar j(1) smaller
        by (subst transform_loop.simps) (simp add: js_index_def split: sum.splits)
    qed
  qed
qed

lemma transform_split_packet:
  assumes wf: "\<forall>it \<in> set items. well_formed it" and rest: "byte_of CHR ''#'' \<notin> set rest"
  shows "GDBStandardOutputAdapter_transform hexdec decwrite
           (render items @ byte_of CHR ''$'' # rest) dec
         = (case console_output hexdec decwrite items [] dec of
              (Inl e, d) \<Rightarrow> Some (Inl e, d)
            | (Inr r, d) \<Rightarrow> None)"
proof -
  let ?p = "render items @ byte_of CHR ''$'' # rest"
  have "js_index ?p k \<noteq> Some (byte_of CHR ''#'')" if "length (render items) + 1 \<le> k" for k
  proof (cases "k < length ?p")
    case False
    then show ?thesis by (simp add: js_index_def)
  next
    case True
    with that have "?p ! k = rest ! (k - length (render items) - 1)"
      and "k - length (render items) - 1 < length rest"
      by (auto simp: nth_append nth_Cons')
    with rest True show ?thesis
      by (metis js_index_def nth_mem option.inject)
  qed
  then have none: "while_not_hash ?p (length (render items) + 1) = None"
    by (intro while_not_hash_none) blast
  have stuck: "transform_loop hexdec decwrite ?p (length (render items)) r d = None" for r d
    using none by (subst transform_loop.simps) (simp add: js_index_def nth_append)
  obtain out d where c: "console_output hexdec decwrite items [] dec = (out, d)"
    by (cases "console_output hexdec decwrite items [] dec")
  show ?thesis
    unfolding GDBStandardOutputAdapter_transform_def
    using scan_items [OF wf, of hexdec decwrite "[]" "byte_of CHR ''$'' # rest" "[]" dec] c
    by (cases out) (simp_all add: stuck)
qed




text \<open>
  C10, as stated, fails: in the chunk \<open>$#$0\<close> the second \<open>$\<close> has no \<open>#\<close> after it, yet
  the scan terminates, because that \<open>$\<close> stands where the checksum of the first packet is
  skipped.
\<close>

theorem transform_terminates_counterexample:
  "GDBStandardOutputAdapter_transform Buffer_from_hex StringDecoder_write (bytes ''$#$0'') [] = Some (Inr [], []) \<and> \<not> dollars_closed (bytes ''$#$0'')"
  by (simp add: adapter_eval)

text \<open>
  C10, amended: the scan of a chunk terminates whenever every \<open>$\<close> byte in the chunk is
  followed by a \<open>#\<close> byte later in the same chunk. For every chunk that consists of whole
  packets and bytes between packets, followed by a \<open>$\<close> with no \<open>#\<close> after it (a packet
  split across chunks), the scan never terminates, unless a console packet before the
  split one fails to hex-decode, which ends the scan with that exception.
\<close>

theorem transform_terminates_when_closed:
  "(dollars_closed packet \<longrightarrow>
      GDBStandardOutputAdapter_transform hexdec decwrite packet dec \<noteq> None)
   \<and> ((\<forall>it \<in> set items. well_formed it) \<and> byte_of CHR ''#'' \<notin> set rest \<longrightarrow>
        GDBStandardOutputAdapter_transform hexdec decwrite
          (render items @ byte_of CHR ''$'' # rest) dec
        = (case console_output hexdec decwrite items [] dec of
             (Inl e, d) \<Rightarrow> Some (Inl e, d)
           | (Inr r, d) \<Rightarrow> None))"
  using transform_loop_terminates [of packet hexdec decwrite 0 "[]" dec]
    transform_split_packet [of items rest hexdec decwrite dec]
  by (simp add: GDBStandardOutputAdapter_transform_def)

theorem transform_terminates_when_closed_witness:
  "dollars_closed (bytes ''$OK#9a'')
   \<and> GDBStandardOutputAdapter_transform Buffer_from_hex StringDecoder_write (bytes ''$OK#9a'') [] \<noteq> None
   \<and> GDBStandardOutputAdapter_transform Buffer_from_hex StringDecoder_write (render [Packet (bytes ''OK'') 0x39 0x61] @ byte_of CHR ''$'' # bytes ''O68'') [] = None"
proof -
  let ?items = "[Packet (bytes ''OK'') 0x39 0x61]"
  have closed: "dollars_closed (bytes ''$OK#9a'')"
    by (simp add: bytes_def byte_of_def)
  have wf: "(\<forall>it \<in> set ?items. well_formed it) \<and> byte_of CHR ''#'' \<notin> set (bytes ''O68'')"
    by (simp add: bytes_def byte_of_def)
  have out: "console_output Buffer_from_hex StringDecoder_write ?items [] [] = (Inr [], [])"
    by (simp add: bytes_def byte_of_def)
  from transform_terminates_when_closed
    [of "bytes ''$OK#9a''" Buffer_from_hex StringDecoder_write "[]" ?items "bytes ''O68''"]
    closed wf out
  show ?thesis by simp
qed

section \<open>Properties of the streaming receiver\<close>

lemma retrieve_state_fields:
  "buffer (fst (retrieve_state L message s)) = buffer s
   \<and> length_field (fst (retrieve_state L message s)) = length_field s
   \<and> state (fst (retrieve_state L message s)) = state s
   \<and> format (fst (retrieve_state L message s)) = format s"
  by (auto simp: retrieve_state_def logger_def Let_def split: sum.splits)

lemma length_js_slice_from: "length (js_slice_from b k) \<le> length b"
  by (simp add: js_slice_from_def js_slice_def Let_def)

lemma plist_case_fields:
  "buffer (plist_case L s) = js_slice_from (buffer s) (length_field s)
   \<and> state (plist_case L s) = Length \<and> length_field (plist_case L s) = 4
   \<and> format (plist_case L s) = format s"
proof (cases "parseBuffer L (js_slice (buffer s) 0 (length_field s))")
  case (Inl e)
  then show ?thesis
    by (simp add: plist_case_def Let_def logger_def)
next
  case (Inr message)
  let ?s0 = "logger (TraceValue message) (logger (Trace (ascii ''MESSAGE RECEIVING'')) s)"
  obtain s' r where rs: "retrieve_state L message ?s0 = (s', r)"
    by (cases "retrieve_state L message ?s0")
  have "buffer s' = buffer s \<and> length_field s' = length_field s \<and> format s' = format s"
    using retrieve_state_fields [of L message ?s0] rs by (simp add: logger_def)
  then show ?thesis
    using Inr rs by (cases r) (simp_all add: plist_case_def Let_def logger_def)
qed

lemma js_slice_nonneg:
  "0 \<le> k \<Longrightarrow> k \<le> int (length b) \<Longrightarrow> js_slice b 0 k = take (nat k) b"
  "0 \<le> k \<Longrightarrow> k \<le> int (length b) \<Longrightarrow> js_slice_from b k = drop (nat k) b"
  by (auto simp: js_slice_def js_slice_from_def clamp_index_def Let_def)

lemma retrieve_state_append:
  "retrieve_state L m (append_data d s) = (append_data d (fst (retrieve_state L m s)), snd (retrieve_state L m s))"
  by (auto simp: retrieve_state_def append_data_def logger_def Let_def split: sum.splits)

lemma logger_append: "logger e (append_data d s) = append_data d (logger e s)"
  by (simp add: logger_def append_data_def)

lemma plist_case_append:
  assumes "0 \<le> length_field s" "length_field s \<le> int (length (buffer s))"
  shows "plist_case L (append_data d s) = append_data d (plist_case L s)"
proof -
  have a: "js_slice (buffer s @ d) 0 (length_field s) = js_slice (buffer s) 0 (length_field s)"
    using assms by (simp add: js_slice_nonneg)
  have b: "js_slice_from (buffer s @ d) (length_field s) = js_slice_from (buffer s) (length_field s) @ d"
    using assms by (simp add: js_slice_nonneg)
  show ?thesis
  proof (cases "parseBuffer L (js_slice (buffer s) 0 (length_field s))")
    case (Inl e)
    then show ?thesis
      using a b by (simp add: plist_case_def Let_def logger_def append_data_def)
  next
    case (Inr m)
    let ?s0 = "logger (TraceValue m) (logger (Trace (ascii ''MESSAGE RECEIVING'')) s)"
    obtain s' r where rs: "retrieve_state L m ?s0 = (s', r)"
      by (cases "retrieve_state L m ?s0")
    have f: "buffer s' = buffer s \<and> length_field s' = length_field s"
      using retrieve_state_fields [of L m ?s0] rs by (simp add: logger_def)
    have "retrieve_state L m (logger (TraceValue m) (logger (Trace (ascii ''MESSAGE RECEIVING'')) (append_data d s)))
          = (append_data d s', r)"
      using retrieve_state_append [of L m d ?s0] rs by (simp add: logger_append)
    then show ?thesis
      using Inr rs a b f
      by (cases r) (simp_all add: plist_case_def Let_def logger_def append_data_def)
  qed
qed

lemma length_case_append:
  assumes "4 \<le> length (buffer s)"
  shows "length_case (append_data d s) = append_data d (length_case s)"
proof -
  have r: "readInt32BE (buffer s @ d) = readInt32BE (buffer s)"
  proof -
    have n: "(buffer s @ d) ! k = buffer s ! k" if "k < 4" for k
      using that assms by (simp add: nth_append)
    show ?thesis
      using n [of 0] n [of 1] n [of 2] n [of 3] by (simp add: readInt32BE_def)
  qed
  have "js_slice_from (buffer s @ d) 4 = drop 4 (buffer s @ d)"
    using assms by (intro js_slice_nonneg(2) [of 4, simplified]) simp
  moreover have "js_slice_from (buffer s) 4 = drop 4 (buffer s)"
    using assms by (intro js_slice_nonneg(2) [of 4, simplified]) simp
  ultimately have b: "js_slice_from (buffer s @ d) 4 = js_slice_from (buffer s) 4 @ d"
    using assms by simp
  show ?thesis
    by (simp add: length_case_def append_data_def r b)
qed

lemma while_step_append:
  assumes "expects s" "while_step L s = Some (Inr s')"
  shows "while_step L (append_data d s) = Some (Inr (append_data d s'))"
proof (cases "state s")
  case Length
  with assms have "4 \<le> length (buffer s)" "s' = length_case s" "length_field s = 4"
    by (auto simp: while_step_def expects_def split: if_splits)
  then show ?thesis
    using Length length_case_append [of s d]
    by (simp add: while_step_def) (simp add: append_data_def)
next
  case Plist
  with assms have "0 \<le> length_field s" "length_field s \<le> int (length (buffer s))" "s' = plist_case L s"
    by (auto simp: while_step_def expects_def split: if_splits)
  then show ?thesis
    using Plist plist_case_append [of s L d]
    by (simp add: while_step_def) (simp add: append_data_def)
qed

lemma while_step_no_error:
  "expects s \<Longrightarrow> while_step L s \<noteq> Some (Inl e)"
  by (auto simp: while_step_def expects_def split: ReadState.splits)

lemma expects_append: "expects (append_data d s) = expects s"
  by (simp add: expects_def append_data_def split: ReadState.splits)

lemma safe_prefix:
  "safe L u \<Longrightarrow> u = append_data d t \<Longrightarrow> safe L t"
proof (induction arbitrary: t rule: safe.induct)
  case (stop u)
  then have e: "expects t" by (simp add: expects_append)
  show ?case
  proof (cases "while_step L t")
    case None
    with e show ?thesis by (rule safe.stop)
  next
    case (Some r)
    show ?thesis
    proof (cases r)
      case (Inl x)
      with Some e show ?thesis using while_step_no_error by blast
    next
      case (Inr t')
      with Some have "while_step L (append_data d t) = Some (Inr (append_data d t'))"
        using while_step_append [OF e] by blast
      with stop show ?thesis by simp
    qed
  qed
next
  case (step u u')
  then have e: "expects t" by (simp add: expects_append)
  show ?case
  proof (cases "while_step L t")
    case None
    with e show ?thesis by (rule safe.stop)
  next
    case (Some r)
    show ?thesis
    proof (cases r)
      case (Inl x)
      with Some e show ?thesis using while_step_no_error by blast
    next
      case (Inr t')
      with Some have st: "while_step L t = Some (Inr t')" by simp
      then have "while_step L (append_data d t) = Some (Inr (append_data d t'))"
        using while_step_append [OF e] by blast
      with step have "u' = append_data d t'" by simp
      then have "safe L t'" by (rule step.IH)
      with e st show ?thesis by (rule safe.step)
    qed
  qed
qed

lemma while_loop_stop: "while_step L s = None \<Longrightarrow> while_loop L s = s"
  by (subst while_loop.simps) simp

lemma while_loop_step: "while_step L s = Some (Inr s') \<Longrightarrow> while_loop L s = while_loop L s'"
  by (subst while_loop.simps) simp

lemma safe_step_inv:
  "safe L u \<Longrightarrow> while_step L u = Some (Inr u') \<Longrightarrow> safe L u'"
  by (cases rule: safe.cases) auto

lemma while_loop_append:
  assumes "safe L t"
  shows "while_loop L (append_data d (while_loop L t)) = while_loop L (append_data d t)"
  using assms
proof (induction rule: safe.induct)
  case (stop s)
  then show ?case by (simp add: while_loop_stop)
next
  case (step s s')
  from while_step_append [OF step(1,2), of d]
  have "while_loop L (append_data d s) = while_loop L (append_data d s')"
    by (rule while_loop_step)
  with step show ?case by (simp add: while_loop_step)
qed

lemma safe_while_loop_append:
  assumes "safe L t" "safe L (append_data d t)"
  shows "safe L (append_data d (while_loop L t))"
  using assms
proof (induction rule: safe.induct)
  case (stop s)
  then show ?case by (simp add: while_loop_stop)
next
  case (step s s')
  from while_step_append [OF step(1,2), of d] step.prems
  have "safe L (append_data d s')" by (rule safe_step_inv [rotated])
  with step show ?case by (simp add: while_loop_step)
qed

lemma while_loop_stuck:
  "safe L t \<Longrightarrow> while_step L (while_loop L t) = None"
  by (induction rule: safe.induct) (simp_all add: while_loop_stop while_loop_step)

lemma while_step_format:
  "while_step L s = Some (Inr s') \<Longrightarrow> format s' = format s"
  using plist_case_fields [of L s]
  by (auto simp: while_step_def length_case_def split: if_splits ReadState.splits)

lemma while_loop_format:
  "safe L t \<Longrightarrow> format (while_loop L t) = format t"
  by (induction rule: safe.induct) (simp_all add: while_loop_stop while_loop_step while_step_format)

lemma receive_chunks_binary:
  assumes "format s = kCFPropertyListBinaryFormat_v1_0" "while_step L s = None"
    "safe L (append_data (concat chunks) s)"
  shows "receive_chunks L chunks s = while_loop L (append_data (concat chunks) s)"
  using assms
proof (induction chunks arbitrary: s)
  case Nil
  then show ?case by (simp add: receive_chunks_def append_data_def while_loop_stop)
next
  case (Cons c cs)
  let ?t = "append_data c s"
  let ?u = "while_loop L ?t"
  have split: "append_data (concat (c # cs)) s = append_data (concat cs) ?t"
    by (simp add: append_data_def)
  with Cons.prems have safe_all: "safe L (append_data (concat cs) ?t)" by simp
  then have safe_t: "safe L ?t" by (rule safe_prefix) simp
  have u: "on_data L c s = ?u"
    using Cons.prems(1) by (simp add: on_data_def append_data_def Let_def)
  have "receive_chunks L (c # cs) s = receive_chunks L cs ?u"
    by (simp add: receive_chunks_def u)
  also have "\<dots> = while_loop L (append_data (concat cs) ?u)"
  proof (rule Cons.IH)
    show "format ?u = kCFPropertyListBinaryFormat_v1_0"
      using while_loop_format [OF safe_t] Cons.prems(1) by (simp add: append_data_def)
    show "while_step L ?u = None" by (rule while_loop_stuck [OF safe_t])
    show "safe L (append_data (concat cs) ?u)"
      by (rule safe_while_loop_append [OF safe_t safe_all])
  qed
  also have "\<dots> = while_loop L (append_data (concat cs) ?t)"
    by (rule while_loop_append [OF safe_t])
  finally show ?case by (simp only: split)
qed


lemma length_pack_i32be: "length (pack_i32be n) = 4"
  by (simp add: pack_i32be_def Let_def)

lemma readInt32BE_pack:
  assumes "0 \<le> n" "n < 2 ^ 31"
  shows "readInt32BE (pack_i32be n @ rest) = n"
proof -
  define w0 :: byte where "w0 = word_of_int (n div 16777216)"
  define w1 :: byte where "w1 = word_of_int (n div 65536 mod 256)"
  define w2 :: byte where "w2 = word_of_int (n div 256 mod 256)"
  define w3 :: byte where "w3 = word_of_int (n mod 256)"
  have u: "n mod 4294967296 = n" using assms by simp
  have "0 \<le> n div 16777216" "n div 16777216 < 256" using assms by auto
  then have a: "uint w0 = n div 16777216"
    by (simp add: w0_def uint_word_of_int)
  have b: "uint w1 = n div 65536 mod 256"
    by (simp add: w1_def uint_word_of_int)
  have c: "uint w2 = n div 256 mod 256"
    by (simp add: w2_def uint_word_of_int)
  have d: "uint w3 = n mod 256"
    by (simp add: w3_def uint_word_of_int)
  have e: "n div 65536 = n div 256 div 256" "n div 16777216 = n div 256 div 256 div 256"
    by (simp_all add: zdiv_zmult2_eq)
  have v: "((uint w0 * 256 + uint w1) * 256 + uint w2) * 256 + uint w3 = n"
    unfolding a b c d e by simp
  have p: "pack_i32be n = [w0, w1, w2, w3]"
    by (simp add: pack_i32be_def Let_def u w0_def w1_def w2_def w3_def)
  have "readInt32BE ([w0, w1, w2, w3] @ rest)
        = (let v = ((uint w0 * 256 + uint w1) * 256 + uint w2) * 256 + uint w3
           in if v < 2 ^ 31 then v else v - 2 ^ 32)"
    by (simp add: readInt32BE_def)
  then show ?thesis
    unfolding p v Let_def using assms by simp
qed

lemma parsed_append: "parsed (xs @ ys) = parsed xs @ parsed ys"
  by (induction xs rule: parsed.induct) auto

lemma retrieve_state_parsed:
  "parsed (log (fst (retrieve_state L m s))) = parsed (log s)"
  by (auto simp: retrieve_state_def logger_def Let_def parsed_append split: sum.splits)

lemma plist_case_parsed:
  "parsed (log (plist_case L s))
   = parsed (log s) @ [parseBuffer L (js_slice (buffer s) 0 (length_field s))]"
proof (cases "parseBuffer L (js_slice (buffer s) 0 (length_field s))")
  case (Inl e)
  then show ?thesis
    by (simp add: plist_case_def Let_def logger_def parsed_append)
next
  case (Inr m)
  let ?fresh = "logger (TraceValue m) (logger (Trace (ascii ''MESSAGE RECEIVING'')) s)"
  obtain s' r where rs: "retrieve_state L m ?fresh = (s', r)"
    by (cases "retrieve_state L m ?fresh")
  have "parsed (log s') = parsed (log s) @ [Inr m]"
    using retrieve_state_parsed [of L m ?fresh] rs by (simp add: logger_def parsed_append)
  moreover have "ascii ''Failed to retreive state: '' \<noteq> ascii ''Failed to parse bplist: ''"
    by (simp add: ascii_def)
  ultimately show ?thesis
    using Inr rs by (cases r) (simp_all add: plist_case_def Let_def logger_def parsed_append)
qed

lemma frames_run:
  assumes "\<forall>p \<in> set ps. length p < 2 ^ 31"
    and "state s = Length" "length_field s = 4" "buffer s = concat (map frame ps)"
  shows "safe L s \<and> parsed (log (while_loop L s)) = parsed (log s) @ map (parseBuffer L) ps
         \<and> buffer (while_loop L s) = [] \<and> state (while_loop L s) = Length
         \<and> length_field (while_loop L s) = 4"
  using assms
proof (induction ps arbitrary: s)
  case Nil
  then have stuck: "while_step L s = None" by (simp add: while_step_def)
  moreover have "expects s" using Nil by (simp add: expects_def)
  ultimately have "safe L s" by (rule safe.stop [rotated])
  with Nil stuck show ?case by (simp add: while_loop_stop)
next
  case (Cons p ps)
  let ?rest = "concat (map frame ps)"
  let ?n = "int (length p)"
  from Cons.prems have n: "0 \<le> ?n" "?n < 2 ^ 31" by auto
  have "frame p = pack_i32be ?n @ p" by (simp add: frame_def)
  then have buf: "buffer s = pack_i32be ?n @ p @ ?rest"
    using Cons.prems by simp
  let ?s1 = "length_case s"
  have len4: "4 \<le> length (buffer s)" by (simp add: buf length_pack_i32be)
  have s1: "state ?s1 = Plist" "length_field ?s1 = ?n" "buffer ?s1 = p @ ?rest" "log ?s1 = log s"
    using readInt32BE_pack [OF n, of "p @ ?rest"] js_slice_nonneg(2) [of 4 "buffer s"] len4
    by (simp_all add: length_case_def buf length_pack_i32be)
  have step1: "while_step L s = Some (Inr ?s1)"
    using Cons.prems len4 by (simp add: while_step_def)
  let ?s2 = "plist_case L ?s1"
  have step2: "while_step L ?s1 = Some (Inr ?s2)"
    using s1 by (simp add: while_step_def)
  have s2: "state ?s2 = Length" "length_field ?s2 = 4" "buffer ?s2 = ?rest"
    using plist_case_fields [of L ?s1] s1 js_slice_nonneg(2) [of ?n "p @ ?rest"]
    by simp_all
  have log2: "parsed (log ?s2) = parsed (log s) @ [parseBuffer L p]"
    using plist_case_parsed [of L ?s1] s1 js_slice_nonneg(1) [of ?n "p @ ?rest"] by simp
  from Cons.prems have short: "\<forall>p \<in> set ps. length p < 2 ^ 31" by simp
  note IH = Cons.IH [OF short s2]
  have e: "expects s" "expects ?s1"
    using Cons.prems s1 by (simp_all add: expects_def)
  have "safe L s"
    using e step1 step2 IH by (blast intro: safe.step)
  moreover have "while_loop L s = while_loop L ?s2"
    using step1 step2 by (simp add: while_loop_step)
  ultimately show ?case
    using IH log2 by simp
qed

lemma receive_frames:
  assumes "\<forall>p \<in> set ps. length p < 2 ^ 31" "concat chunks = concat (map frame ps)"
  shows "parsed (log (receive_chunks L chunks (new_PosixSocket kCFPropertyListBinaryFormat_v1_0)))
           = map (parseBuffer L) ps
         \<and> buffer (receive_chunks L chunks (new_PosixSocket kCFPropertyListBinaryFormat_v1_0)) = []
         \<and> state (receive_chunks L chunks (new_PosixSocket kCFPropertyListBinaryFormat_v1_0)) = Length
         \<and> length_field (receive_chunks L chunks (new_PosixSocket kCFPropertyListBinaryFormat_v1_0)) = 4"
proof -
  let ?fresh = "new_PosixSocket kCFPropertyListBinaryFormat_v1_0"
  let ?s = "append_data (concat chunks) ?fresh"
  have s: "state ?s = Length" "length_field ?s = 4" "buffer ?s = concat (map frame ps)" "log ?s = []"
    using assms(2) by (simp_all add: append_data_def new_PosixSocket_def)
  note run = frames_run [OF assms(1) s(1,2,3), of L]
  have "receive_chunks L chunks ?fresh = while_loop L ?s"
  proof (rule receive_chunks_binary)
    show "format ?fresh = kCFPropertyListBinaryFormat_v1_0" by (simp add: new_PosixSocket_def)
    show "while_step L ?fresh = None" by (simp add: new_PosixSocket_def while_step_def)
    show "safe L ?s" using run by blast
  qed
  with run s(4) show ?thesis by simp
qed


lemma retrieve_state_dictionary:
  assumes "\<not> has_field d (ascii ''0'')"
  shows "retrieve_state L (JArr [JObj d]) s
         = (s\<lparr>log := log s @ [Out (progress_line L d)],
               future := resolve (future s) (Inr d)\<rparr>, Some TypeError)"
proof -
  from assms have zero: "js_prop d (ascii ''0'') = JUndefined"
    by (simp add: has_field_def js_prop_def)
  have ne: "ascii ''Status'' \<noteq> ascii ''0''" "ascii ''PercentComplete'' \<noteq> ascii ''0''"
    "ascii ''Complete'' \<noteq> []"
    by (simp_all add: ascii_def)
  show ?thesis
    by (cases "future s")
       (simp_all add: retrieve_state_def zero ne logger_def Let_def progress_line_def)
qed

lemma plist_case_outcome:
  assumes "decodes L (js_slice (buffer s) 0 (length_field s)) r"
  shows "plist_case L s
         = s\<lparr>log := log s @ outcome_log L r, future := resolve (future s) r,
              buffer := js_slice_from (buffer s) (length_field s), state := Length,
              length_field := 4\<rparr>"
proof (cases r)
  case (Inl e)
  with assms show ?thesis
    by (cases "future s") (simp_all add: plist_case_def Let_def logger_def)
next
  case (Inr d)
  with assms have p: "parseBuffer L (js_slice (buffer s) 0 (length_field s)) = Inr (JArr [JObj d])"
    and z: "\<not> has_field d (ascii ''0'')" by simp_all
  show ?thesis
    by (simp add: plist_case_def p Let_def retrieve_state_dictionary [OF z] logger_def Inr
        message_log_def)
qed

lemma frames_outcomes:
  assumes "\<forall>p \<in> set ps. length p < 2 ^ 31" "list_all2 (decodes L) ps os"
    and "state s = Length" "length_field s = 4" "buffer s = concat (map frame ps)"
  shows "log (while_loop L s) = log s @ concat (map (outcome_log L) os)
         \<and> future (while_loop L s) = foldl resolve (future s) os"
  using assms
proof (induction ps arbitrary: os s)
  case Nil
  then have "while_step L s = None" by (simp add: while_step_def)
  with Nil show ?case by (simp add: while_loop_stop)
next
  case (Cons p ps)
  from Cons.prems(2) obtain r rs where os: "os = r # rs" and r: "decodes L p r"
    and rs: "list_all2 (decodes L) ps rs"
    by (auto simp: list_all2_Cons1)
  let ?rest = "concat (map frame ps)"
  let ?n = "int (length p)"
  from Cons.prems have n: "0 \<le> ?n" "?n < 2 ^ 31" by auto
  have "frame p = pack_i32be ?n @ p" by (simp add: frame_def)
  then have buf: "buffer s = pack_i32be ?n @ p @ ?rest"
    using Cons.prems by simp
  let ?a = "length_case s"
  have len4: "4 \<le> length (buffer s)" by (simp add: buf length_pack_i32be)
  have a: "state ?a = Plist" "length_field ?a = ?n" "buffer ?a = p @ ?rest" "log ?a = log s"
    "future ?a = future s"
    using readInt32BE_pack [OF n, of "p @ ?rest"] js_slice_nonneg(2) [of 4 "buffer s"] len4
    by (simp_all add: length_case_def buf length_pack_i32be)
  have step1: "while_step L s = Some (Inr ?a)"
    using Cons.prems len4 by (simp add: while_step_def)
  let ?b = "plist_case L ?a"
  have step2: "while_step L ?a = Some (Inr ?b)"
    using a by (simp add: while_step_def)
  have slice: "js_slice (buffer ?a) 0 (length_field ?a) = p"
    "js_slice_from (buffer ?a) (length_field ?a) = ?rest"
    using a js_slice_nonneg(1) [of ?n "p @ ?rest"] js_slice_nonneg(2) [of ?n "p @ ?rest"]
    by simp_all
  have "decodes L (js_slice (buffer ?a) 0 (length_field ?a)) r"
    using r slice by simp
  from plist_case_outcome [OF this]
  have b: "state ?b = Length" "length_field ?b = 4" "buffer ?b = ?rest"
    "log ?b = log s @ outcome_log L r" "future ?b = resolve (future s) r"
    using a slice by simp_all
  from Cons.prems have short: "\<forall>p \<in> set ps. length p < 2 ^ 31" by simp
  note IH = Cons.IH [OF short rs b(1,2,3)]
  have "while_loop L s = while_loop L ?b"
    using step1 step2 by (simp add: while_loop_step)
  with IH b show ?case by (simp add: os)
qed

lemma receive_outcomes:
  assumes "\<forall>p \<in> set ps. length p < 2 ^ 31" "concat chunks = concat (map frame ps)"
    and "list_all2 (decodes L) ps os"
  shows "log (receive_chunks L chunks (new_PosixSocket kCFPropertyListBinaryFormat_v1_0))
           = concat (map (outcome_log L) os)
         \<and> future (receive_chunks L chunks (new_PosixSocket kCFPropertyListBinaryFormat_v1_0))
           = foldl resolve None os"
proof -
  let ?fresh = "new_PosixSocket kCFPropertyListBinaryFormat_v1_0"
  let ?s = "append_data (concat chunks) ?fresh"
  have s: "state ?s = Length" "length_field ?s = 4" "buffer ?s = concat (map frame ps)"
    "log ?s = []" "future ?s = None"
    using assms(2) by (simp_all add: append_data_def new_PosixSocket_def)
  note run = frames_run [OF assms(1) s(1,2,3), of L]
  have "receive_chunks L chunks ?fresh = while_loop L ?s"
  proof (rule receive_chunks_binary)
    show "format ?fresh = kCFPropertyListBinaryFormat_v1_0" by (simp add: new_PosixSocket_def)
    show "while_step L ?fresh = None" by (simp add: new_PosixSocket_def while_step_def)
    show "safe L ?s" using run by blast
  qed
  with frames_outcomes [OF assms(1,3) s(1,2,3)] s(4,5) show ?thesis by simp
qed

lemma resolve_failure: "resolve fut (Inl e) = fut"
  by (cases fut) simp_all

lemma foldl_resolve_Some: "foldl resolve (Some v) os = Some v"
  by (induction os) simp_all

lemma foldl_resolve_dictionaries:
  "foldl resolve None (map Inr ds) = first_complete ds"
  by (induction ds) (simp_all add: foldl_resolve_Some)

lemma foldl_resolve_around_failure:
  "foldl resolve None (map Inr xs @ Inl e # map Inr ys) = first_complete (xs @ ys)"
proof -
  have "foldl resolve None (map Inr xs @ Inl e # map Inr ys)
        = foldl resolve None (map Inr (xs @ ys))"
    by (simp add: resolve_failure)
  then show ?thesis by (simp only: foldl_resolve_dictionaries)
qed

lemma stub_decodes:
  "decodes stub_libraries (bytes ''C1'') (Inr (stub_dictionary (bytes ''C1'')))"
  "decodes stub_libraries (bytes ''C2'') (Inr (stub_dictionary (bytes ''C2'')))"
  "decodes stub_libraries (bytes ''Sab'') (Inr (stub_dictionary (bytes ''Sab'')))"
  "decodes stub_libraries (bytes ''junk'') (Inl ParseError)"
  by (simp_all add: stub_libraries_def stub_dictionary_def bytes_def byte_of_def has_field_def
      ascii_def)





text \<open>
  C8, as stated for streaming mode, fails when the socket's format is XML: a buffer that
  the XML parser rejects leaves no entry in the log (the \<open>catch\<close> is empty), and the
  future is resolved with \<open>{}\<close>.
\<close>

theorem bad_frame_xml_counterexample:
  "plist_parse stub_libraries (buffer_toString stub_libraries (frame (bytes ''junk''))) = Inl ParseError
   \<and> log (receive_chunks stub_libraries [frame (bytes ''junk'')]
            (new_PosixSocket kCFPropertyListXMLFormat_v1_0)) = []
   \<and> future (receive_chunks stub_libraries [frame (bytes ''junk'')]
            (new_PosixSocket kCFPropertyListXMLFormat_v1_0)) = Some (JObj [])"
  by (simp add: receive_chunks_def on_data_def new_PosixSocket_def stub_libraries_def
      kCFPropertyListXMLFormat_v1_0_def kCFPropertyListBinaryFormat_v1_0_def
      frame_def pack_i32be_def bytes_def byte_of_def ascii_def Let_def)

text \<open>
  C8, amended: in streaming mode with the binary format, for every sequence of frames in
  which one frame's payload fails to decode, the failure is logged in the place of that
  frame's message and neither fails the call nor stops the state machine: the buffer
  advances past the bad frame by its declared length, the frames before and after it are
  decoded and traced, and the buffer ends empty. When the other frames decode to
  dictionaries, each of them still reaches the log with its announcement, message and
  Status/PercentComplete line, and the future is resolved with the first of them whose
  Status is \<open>"Complete"\<close>, whether it comes before or after the bad frame. The step that
  meets the failure only appends the log entry, drops the declared number of bytes and
  expects a length again: it does not touch the future of the call.
\<close>

theorem bad_frame_skipped:
  "((\<forall>p \<in> set (before @ bad # after). length p < 2 ^ 31) \<and> parseBuffer L bad = Inl e
     \<and> concat chunks = concat (map frame (before @ bad # after)) \<longrightarrow>
      parsed (log (receive_chunks L chunks (new_PosixSocket kCFPropertyListBinaryFormat_v1_0)))
        = map (parseBuffer L) before @ Inl e # map (parseBuffer L) after
      \<and> buffer (receive_chunks L chunks (new_PosixSocket kCFPropertyListBinaryFormat_v1_0)) = []
      \<and> state (receive_chunks L chunks (new_PosixSocket kCFPropertyListBinaryFormat_v1_0)) = Length
      \<and> length_field (receive_chunks L chunks (new_PosixSocket kCFPropertyListBinaryFormat_v1_0)) = 4)
   \<and> ((\<forall>p \<in> set (before @ after). length p < 2 ^ 31
                                      \<and> parseBuffer L p = Inr (JArr [JObj (dict p)])
                                      \<and> \<not> has_field (dict p) (ascii ''0''))
       \<and> length bad < 2 ^ 31 \<and> parseBuffer L bad = Inl e
       \<and> concat chunks = concat (map frame (before @ bad # after)) \<longrightarrow>
      log (receive_chunks L chunks (new_PosixSocket kCFPropertyListBinaryFormat_v1_0))
        = concat (map (\<lambda>p. message_log L (dict p)) before)
          @ TraceException (ascii ''Failed to parse bplist: '') e
          # concat (map (\<lambda>p. message_log L (dict p)) after)
      \<and> future (receive_chunks L chunks (new_PosixSocket kCFPropertyListBinaryFormat_v1_0))
        = first_complete (map dict (before @ after)))
   \<and> (parseBuffer L (js_slice (buffer s) 0 (length_field s)) = Inl e \<longrightarrow>
        plist_case L s
        = s\<lparr>log := log s @ [TraceException (ascii ''Failed to parse bplist: '') e],
             buffer := js_slice_from (buffer s) (length_field s), state := Length,
             length_field := 4\<rparr>)"
proof -
  have one: "plist_case L s
        = s\<lparr>log := log s @ [TraceException (ascii ''Failed to parse bplist: '') e],
             buffer := js_slice_from (buffer s) (length_field s), state := Length,
             length_field := 4\<rparr>"
    if "parseBuffer L (js_slice (buffer s) 0 (length_field s)) = Inl e"
    using that by (simp add: plist_case_def Let_def logger_def)
  have trace: "parsed (log (receive_chunks L chunks (new_PosixSocket kCFPropertyListBinaryFormat_v1_0)))
        = map (parseBuffer L) before @ Inl e # map (parseBuffer L) after
      \<and> buffer (receive_chunks L chunks (new_PosixSocket kCFPropertyListBinaryFormat_v1_0)) = []
      \<and> state (receive_chunks L chunks (new_PosixSocket kCFPropertyListBinaryFormat_v1_0)) = Length
      \<and> length_field (receive_chunks L chunks (new_PosixSocket kCFPropertyListBinaryFormat_v1_0)) = 4"
    if "\<forall>p \<in> set (before @ bad # after). length p < 2 ^ 31" "parseBuffer L bad = Inl e"
      "concat chunks = concat (map frame (before @ bad # after))"
    using that receive_frames [of "before @ bad # after" chunks L] by auto
  have full: "log (receive_chunks L chunks (new_PosixSocket kCFPropertyListBinaryFormat_v1_0))
        = concat (map (\<lambda>p. message_log L (dict p)) before)
          @ TraceException (ascii ''Failed to parse bplist: '') e
          # concat (map (\<lambda>p. message_log L (dict p)) after)
      \<and> future (receive_chunks L chunks (new_PosixSocket kCFPropertyListBinaryFormat_v1_0))
        = first_complete (map dict (before @ after))"
    if h: "\<forall>p \<in> set (before @ after). length p < 2 ^ 31
                                      \<and> parseBuffer L p = Inr (JArr [JObj (dict p)])
                                      \<and> \<not> has_field (dict p) (ascii ''0'')"
      and b: "length bad < 2 ^ 31" "parseBuffer L bad = Inl e"
      and cat: "concat chunks = concat (map frame (before @ bad # after))"
  proof -
    let ?os = "map Inr (map dict before) @ Inl e # map Inr (map dict after)"
    from h b have short: "\<forall>p \<in> set (before @ bad # after). length p < 2 ^ 31" by auto
    from h have "list_all2 (decodes L) before (map Inr (map dict before))"
      and "list_all2 (decodes L) after (map Inr (map dict after))"
      by (simp_all add: list_all2_conv_all_nth)
    with b have dec: "list_all2 (decodes L) (before @ bad # after) ?os"
      by (intro list_all2_appendI) simp_all
    have "concat (map (outcome_log L) ?os)
          = concat (map (\<lambda>p. message_log L (dict p)) before)
            @ TraceException (ascii ''Failed to parse bplist: '') e
            # concat (map (\<lambda>p. message_log L (dict p)) after)"
      by (simp add: comp_def)
    moreover have "foldl resolve None ?os = first_complete (map dict (before @ after))"
      using foldl_resolve_around_failure [of "map dict before" e "map dict after"] by simp
    ultimately show ?thesis
      using receive_outcomes [OF short cat dec] by simp
  qed
  from one trace full show ?thesis by blast
qed

theorem bad_frame_skipped_witness:
  "log (receive_chunks stub_libraries
          [take 9 (concat (map frame [bytes ''Sab'', bytes ''junk'', bytes ''C1'', bytes ''C2''])),
           drop 9 (concat (map frame [bytes ''Sab'', bytes ''junk'', bytes ''C1'', bytes ''C2'']))]
          (new_PosixSocket kCFPropertyListBinaryFormat_v1_0))
   = message_log stub_libraries [(ascii ''Status'', JStr (ascii ''ab''))]
     @ TraceException (ascii ''Failed to parse bplist: '') ParseError
     # message_log stub_libraries
         [(ascii ''Status'', JStr (ascii ''Complete'')), (ascii ''Tag'', JStr (ascii ''1''))]
     @ message_log stub_libraries
         [(ascii ''Status'', JStr (ascii ''Complete'')), (ascii ''Tag'', JStr (ascii ''2''))]
   \<and> future (receive_chunks stub_libraries
          [take 9 (concat (map frame [bytes ''Sab'', bytes ''junk'', bytes ''C1'', bytes ''C2''])),
           drop 9 (concat (map frame [bytes ''Sab'', bytes ''junk'', bytes ''C1'', bytes ''C2'']))]
          (new_PosixSocket kCFPropertyListBinaryFormat_v1_0))
     = Some (JObj [(ascii ''Status'', JStr (ascii ''Complete'')), (ascii ''Tag'', JStr (ascii ''1''))])
   \<and> buffer (receive_chunks stub_libraries
          [take 9 (concat (map frame [bytes ''Sab'', bytes ''junk'', bytes ''C1'', bytes ''C2''])),
           drop 9 (concat (map frame [bytes ''Sab'', bytes ''junk'', bytes ''C1'', bytes ''C2'']))]
          (new_PosixSocket kCFPropertyListBinaryFormat_v1_0)) = []"
proof -
  let ?before = "[bytes ''Sab'']" and ?bad = "bytes ''junk''" and ?after = "[bytes ''C1'', bytes ''C2'']"
  let ?stream = "concat (map frame [bytes ''Sab'', bytes ''junk'', bytes ''C1'', bytes ''C2''])"
  let ?chunks = "[take 9 ?stream, drop 9 ?stream]"
  have d: "stub_dictionary (bytes ''Sab'') = [(ascii ''Status'', JStr (ascii ''ab''))]"
    "stub_dictionary (bytes ''C1'')
     = [(ascii ''Status'', JStr (ascii ''Complete'')), (ascii ''Tag'', JStr (ascii ''1''))]"
    "stub_dictionary (bytes ''C2'')
     = [(ascii ''Status'', JStr (ascii ''Complete'')), (ascii ''Tag'', JStr (ascii ''2''))]"
    by (simp_all add: stub_dictionary_def bytes_def byte_of_def ascii_def)
  have eq: "concat (map frame (?before @ ?bad # ?after)) = ?stream"
    by simp
  have cat: "concat ?chunks = concat (map frame (?before @ ?bad # ?after))"
    unfolding eq by (simp only: concat.simps append_Nil2 append_take_drop_id)
  have h1: "(\<forall>p \<in> set (?before @ ?bad # ?after). length p < 2 ^ 31)
            \<and> parseBuffer stub_libraries ?bad = Inl ParseError
            \<and> concat ?chunks = concat (map frame (?before @ ?bad # ?after))"
    using cat stub_decodes by (simp add: bytes_def)
  have h2: "(\<forall>p \<in> set (?before @ ?after). length p < 2 ^ 31
              \<and> parseBuffer stub_libraries p = Inr (JArr [JObj (stub_dictionary p)])
              \<and> \<not> has_field (stub_dictionary p) (ascii ''0''))
            \<and> length ?bad < 2 ^ 31 \<and> parseBuffer stub_libraries ?bad = Inl ParseError
            \<and> concat ?chunks = concat (map frame (?before @ ?bad # ?after))"
    using cat stub_decodes by (simp add: bytes_def)
  have f: "first_complete (map stub_dictionary (?before @ ?after))
           = Some (JObj [(ascii ''Status'', JStr (ascii ''Complete'')), (ascii ''Tag'', JStr (ascii ''1''))])"
    by (simp add: d js_prop_def ascii_def)
  from bad_frame_skipped
    [of ?before ?bad ?after stub_libraries ParseError ?chunks stub_dictionary] h1 h2
  have "log (receive_chunks stub_libraries ?chunks (new_PosixSocket kCFPropertyListBinaryFormat_v1_0))
        = concat (map (\<lambda>p. message_log stub_libraries (stub_dictionary p)) ?before)
          @ TraceException (ascii ''Failed to parse bplist: '') ParseError
          # concat (map (\<lambda>p. message_log stub_libraries (stub_dictionary p)) ?after)"
    and "future (receive_chunks stub_libraries ?chunks (new_PosixSocket kCFPropertyListBinaryFormat_v1_0))
        = first_complete (map stub_dictionary (?before @ ?after))"
    and "buffer (receive_chunks stub_libraries ?chunks (new_PosixSocket kCFPropertyListBinaryFormat_v1_0)) = []"
    by blast+
  with f show ?thesis
    by (simp add: d)
qed


section \<open>Properties of the synchronous receive\<close>

lemma read_length:
  "read fresh n net = (Inr (Some r), net') \<Longrightarrow> length r = n"
  by (auto simp: read_def recv_def split: list.splits arrival.splits if_splits)

lemma read_filled:
  "length xs = n \<Longrightarrow> 0 < n \<Longrightarrow>
   read fresh n (Arrive (xs @ extra) # rest) = (Inr (Some xs), leftover extra rest)"
  by (simp add: read_def recv_def leftover_def)

lemma read_closed:
  "0 < n \<Longrightarrow> fst (recv n net) = 0 \<Longrightarrow> read fresh n net = (Inr None, snd (snd (recv n net)))"
  by (cases "recv n net") (simp add: read_def)

lemma read_loop_done: "left \<le> 0 \<Longrightarrow> read_loop L fresh left reply net = (Inr reply, net)"
  by (subst read_loop.simps) simp

text \<open>
  C9, as stated, fails when the stream is closed before the length arrives: the read of
  the length returns \<open>null\<close>, the guard \<open>data !== null\<close> skips the payload, and the call
  returns the empty reply instead of failing.
\<close>

theorem receiveMessageCore_closed_counterexample:
  "receiveMessageCore stub_libraries (\<lambda>i. 0) [] = (Inr [], [])"
  by (simp add: receiveMessageCore_def read_def recv_def)

text \<open>
  C9, amended: receive issues one read of four bytes for the length; a zero-length read
  there returns the empty reply without an error, and so does a declared length that is
  not positive. For a positive length it reads the outstanding number of bytes; when the
  reads are filled completely it returns exactly that many payload bytes, as text, and
  leaves the rest of the stream unread; a zero-length read while payload bytes are
  outstanding fails the call with the error \<open>Unable to read reply\<close>.
\<close>

theorem receiveMessageCore_reads:
  "receiveMessageCore L fresh [] = (Inr [], [])
   \<and> receiveMessageCore L fresh (Arrive [] # rest) = (Inr [], rest)
   \<and> (length hdr = 4 \<and> readInt32BE hdr \<le> 0 \<longrightarrow>
        receiveMessageCore L fresh (Arrive (hdr @ extra) # rest) = (Inr [], leftover extra rest))
   \<and> (length hdr = 4 \<and> 0 < readInt32BE hdr \<and> int (length p) = readInt32BE hdr
        \<and> leftover extra rest = Arrive (p @ extra') # rest' \<longrightarrow>
        receiveMessageCore L fresh (Arrive (hdr @ extra) # rest)
        = (Inr (buffer_toString L p), leftover extra' rest'))
   \<and> (length hdr = 4 \<and> 0 < readInt32BE hdr
        \<and> fst (recv (nat (readInt32BE hdr)) (leftover extra rest)) = 0 \<longrightarrow>
        fst (receiveMessageCore L fresh (Arrive (hdr @ extra) # rest))
        = Inl (Failure (ascii ''Unable to read reply'')))"
proof -
  have closed: "receiveMessageCore L fresh [] = (Inr [], [])"
    "receiveMessageCore L fresh (Arrive [] # rest) = (Inr [], rest)"
    by (simp_all add: receiveMessageCore_def read_def recv_def)
  have hdr: "receiveMessageCore L fresh (Arrive (hdr @ extra) # rest)
             = read_loop L fresh (readInt32BE hdr) [] (leftover extra rest)"
    if "length hdr = 4"
    using that read_filled [of hdr 4 fresh extra rest]
    by (simp add: receiveMessageCore_def)
  have none: "receiveMessageCore L fresh (Arrive (hdr @ extra) # rest) = (Inr [], leftover extra rest)"
    if "length hdr = 4" "readInt32BE hdr \<le> 0"
    using that by (simp add: hdr read_loop_done)
  have full: "receiveMessageCore L fresh (Arrive (hdr @ extra) # rest)
        = (Inr (buffer_toString L p), leftover extra' rest')"
    if "length hdr = 4" "0 < readInt32BE hdr" "int (length p) = readInt32BE hdr"
      "leftover extra rest = Arrive (p @ extra') # rest'"
  proof -
    have "read fresh (nat (readInt32BE hdr)) (Arrive (p @ extra') # rest')
          = (Inr (Some p), leftover extra' rest')"
      using that by (intro read_filled) auto
    then have "read_loop L fresh (readInt32BE hdr) [] (Arrive (p @ extra') # rest')
          = read_loop L fresh (readInt32BE hdr - int (length p)) ([] @ buffer_toString L p)
              (leftover extra' rest')"
      using that(2) by (subst read_loop.simps) simp
    then show ?thesis
      using that by (simp add: hdr read_loop_done)
  qed
  have fail: "fst (receiveMessageCore L fresh (Arrive (hdr @ extra) # rest))
        = Inl (Failure (ascii ''Unable to read reply''))"
    if "length hdr = 4" "0 < readInt32BE hdr"
      "fst (recv (nat (readInt32BE hdr)) (leftover extra rest)) = 0"
  proof -
    have "read fresh (nat (readInt32BE hdr)) (leftover extra rest)
          = (Inr None, snd (snd (recv (nat (readInt32BE hdr)) (leftover extra rest))))"
      using that by (intro read_closed) auto
    then show ?thesis
      using that by (simp add: hdr) (subst read_loop.simps, simp)
  qed
  from closed none full fail show ?thesis by blast
qed

theorem receiveMessageCore_reads_witness:
  "receiveMessageCore stub_libraries (\<lambda>i. 0) [Arrive ([0, 0, 0, 2] @ bytes ''abxx'')]
   = (Inr (ascii ''ab''), [Arrive (bytes ''xx'')])
   \<and> fst (receiveMessageCore stub_libraries (\<lambda>i. 0) [Arrive ([0, 0, 0, 2] @ [])])
     = Inl (Failure (ascii ''Unable to read reply''))"
proof -
  have h1: "length [0, 0, 0, 2 :: byte] = 4 \<and> 0 < readInt32BE [0, 0, 0, 2]
        \<and> int (length (bytes ''ab'')) = readInt32BE [0, 0, 0, 2]
        \<and> leftover (bytes ''abxx'') [] = Arrive (bytes ''ab'' @ bytes ''xx'') # []"
    by (simp add: readInt32BE_def bytes_def leftover_def)
  have t: "buffer_toString stub_libraries (bytes ''ab'') = ascii ''ab''"
    "leftover (bytes ''xx'') [] = [Arrive (bytes ''xx'')]"
    by (simp_all add: stub_libraries_def bytes_def byte_of_def ascii_def leftover_def)
  have h2: "length [0, 0, 0, 2 :: byte] = 4 \<and> 0 < readInt32BE [0, 0, 0, 2]
        \<and> fst (recv (nat (readInt32BE [0, 0, 0, 2])) (leftover [] [])) = 0"
    by (simp add: readInt32BE_def leftover_def recv_def)
  from receiveMessageCore_reads
    [of stub_libraries "\<lambda>i. 0" "[]" "[0, 0, 0, 2]" "bytes ''abxx''" "bytes ''ab''" "bytes ''xx''" "[]"]
    h1 t
  have a: "receiveMessageCore stub_libraries (\<lambda>i. 0) [Arrive ([0, 0, 0, 2] @ bytes ''abxx'')]
   = (Inr (ascii ''ab''), [Arrive (bytes ''xx'')])"
    by simp
  from receiveMessageCore_reads
    [of stub_libraries "\<lambda>i. 0" "[]" "[0, 0, 0, 2]" "[]" "[]" "[]" "[]"] h2
  have b: "fst (receiveMessageCore stub_libraries (\<lambda>i. 0) [Arrive ([0, 0, 0, 2] @ [])])
     = Inl (Failure (ascii ''Unable to read reply''))"
    by blast
  from a b show ?thesis by blast
qed

text \<open>
  What the amended statement leaves open: \<open>read\<close> returns the whole buffer it allocated,
  however few bytes \<open>recv\<close> delivered, so a read that is only partly filled counts as
  complete. A payload arriving in two pieces is returned as its first piece followed by
  whatever the fresh buffer held; a length arriving in two pieces is read from its first
  piece alone.
\<close>

lemma receiveMessageCore_partial_read:
  "receiveMessageCore stub_libraries (\<lambda>i. 0x21) [Arrive [0, 0, 0, 2, 0x61], Arrive [0x62]]
   = (Inr (ascii ''a!''), [Arrive [0x62]])
   \<and> receiveMessageCore stub_libraries (\<lambda>i. 0) [Arrive [0, 0], Arrive [0, 2, 0x61, 0x62]]
   = (Inr [], [Arrive [0, 2, 0x61, 0x62]])"
  by (simp add: receiveMessageCore_def read_def recv_def read_loop.simps readInt32BE_def
      stub_libraries_def ascii_def upt_conv_Cons)


end
